theory Spec2Isabelle
  imports Complex_Main "HOL-Library.Multiset"
begin

section \<open>Spectrum Shuffle: game configuration\<close>

text \<open>
  The embedding follows \<^verbatim>\<open>spectrum_shuffle.py\<close>. Python integers are \<open>int\<close>, the colour
  names are strings, and every exception a built-in operation of the source can raise is a
  value of \<open>error\<close>, returned as \<open>Inl\<close>.
\<close>

datatype error = ZeroDivisionError | IndexError | ValueError | OverflowError

definition COLORS :: "string list" where
  "COLORS = [''Red'', ''Orange'', ''Yellow'', ''Green'', ''Blue'', ''Violet'']"

definition BOARD_SIZE :: int where
  "BOARD_SIZE = int (length COLORS)"

subsection \<open>The built-in operations the source uses\<close>

text \<open>\<^verbatim>\<open>a % b\<close>: the remainder has the sign of the divisor, and \<open>b = 0\<close> raises.\<close>

definition py_mod :: "int \<Rightarrow> int \<Rightarrow> error + int" where
  "py_mod a b = (if b = 0 then Inl ZeroDivisionError else Inr (a mod b))"

text \<open>\<^verbatim>\<open>xs[i]\<close> and \<^verbatim>\<open>xs[i] = v\<close>: a negative index counts from the end,
  an index out of range raises.\<close>

definition getitem :: "'a list \<Rightarrow> int \<Rightarrow> error + 'a" where
  "getitem xs i =
     (let n = int (length xs); j = (if i < 0 then i + n else i)
      in if 0 \<le> j \<and> j < n then Inr (xs ! nat j) else Inl IndexError)"

definition setitem :: "'a list \<Rightarrow> int \<Rightarrow> 'a \<Rightarrow> error + 'a list" where
  "setitem xs i v =
     (let n = int (length xs); j = (if i < 0 then i + n else i)
      in if 0 \<le> j \<and> j < n then Inr (xs[nat j := v]) else Inl IndexError)"

text \<open>\<^verbatim>\<open>xs.index(x)\<close>: the first position of \<open>x\<close>; an absent \<open>x\<close> raises.\<close>

fun list_index :: "'a list \<Rightarrow> 'a \<Rightarrow> error + int" where
  "list_index [] x = Inl ValueError"
| "list_index (y # ys) x =
     (if y = x then Inr 0
      else case list_index ys x of Inl e \<Rightarrow> Inl e | Inr i \<Rightarrow> Inr (i + 1))"

text \<open>\<^verbatim>\<open>min(xs)\<close> and \<^verbatim>\<open>max(xs)\<close>: an empty list raises.\<close>

definition py_min :: "int list \<Rightarrow> error + int" where
  "py_min xs = (case xs of [] \<Rightarrow> Inl ValueError | y # ys \<Rightarrow> Inr (fold min ys y))"

definition py_max :: "int list \<Rightarrow> error + int" where
  "py_max xs = (case xs of [] \<Rightarrow> Inl ValueError | y # ys \<Rightarrow> Inr (fold max ys y))"

subsection \<open>The deck\<close>

text \<open>
  \<^verbatim>\<open>random.shuffle\<close> is a parameter of the model: \<open>shuf k xs\<close> is the order in which
  the \<open>k\<close>-th call of the run leaves the list \<open>xs\<close>. The counter of calls is the only
  state of the random source, and it is threaded through every function that shuffles.
  A shuffle is valid when every call returns a permutation of its argument.
\<close>

type_synonym shuffle = "nat \<Rightarrow> string list \<Rightarrow> string list"

definition valid_shuffle :: "shuffle \<Rightarrow> bool" where
  "valid_shuffle shuf = (\<forall>k xs. mset (shuf k xs) = mset xs)"

definition create_deck :: "shuffle \<Rightarrow> nat \<Rightarrow> string list \<times> nat" where
  "create_deck shuf k = (shuf k (concat (replicate 2 COLORS)), Suc k)"

text \<open>Two shuffles to run the model on: one that leaves the list as it is, and a rigged one
  that moves a Green and a Yellow card to the top of the deck.\<close>

definition identity_shuffle :: shuffle where
  "identity_shuffle k xs = xs"

definition rigged_shuffle :: shuffle where
  "rigged_shuffle k xs =
     (if ''Green'' \<in> set xs \<and> ''Yellow'' \<in> set xs
      then ''Green'' # ''Yellow'' # remove1 ''Yellow'' (remove1 ''Green'' xs)
      else xs)"

text \<open>The deck that the rigged shuffle makes of \<^verbatim>\<open>COLORS * 2\<close>.\<close>

definition rigged_deck :: "string list" where
  "rigged_deck = [''Green'', ''Yellow'', ''Red'', ''Orange'', ''Blue'', ''Violet'',
                  ''Red'', ''Orange'', ''Yellow'', ''Green'', ''Blue'', ''Violet'']"

text \<open>A stacked source, which keeps the length of the deck and nothing else of it: the
  first deck holds no card that wins at once, so that a game can outlast it.\<close>

definition stacked_shuffle :: shuffle where
  "stacked_shuffle k xs =
     (if length xs = 12
      then (if k = 0
            then replicate 4 ''Orange'' @ replicate 4 ''Yellow'' @ replicate 4 ''Green''
            else replicate 4 ''Blue'' @ replicate 4 ''Red'' @ replicate 4 ''Violet'')
      else xs)"

text \<open>A source that cuts the deck at the number of the call: the decks differ from game to
  game.\<close>

definition cut_shuffle :: shuffle where
  "cut_shuffle k xs = rotate k xs"

section \<open>One game\<close>

record game_state =
  positions :: "int list"
  deck :: "string list"
  deck_index :: int
  turn :: int
  shuffles :: nat

record game_result =
  winner :: int
  turns :: int

text \<open>Lines 40 to 43: the state in which the loop is entered.\<close>

definition initial_state :: "shuffle \<Rightarrow> int \<Rightarrow> nat \<Rightarrow> game_state" where
  "initial_state shuf num_players k =
     (case create_deck shuf k of (d, k') \<Rightarrow>
        \<lparr>positions = replicate (nat num_players) 0, deck = d, deck_index = 0,
         turn = 0, shuffles = k'\<rparr>)"

text \<open>Lines 49 to 51: a new deck when the cursor has passed the end of the old one.\<close>

definition replenish :: "shuffle \<Rightarrow> game_state \<Rightarrow> game_state" where
  "replenish shuf s =
     (if deck_index s \<ge> int (length (deck s))
      then (case create_deck shuf (shuffles s) of (d, k') \<Rightarrow>
              s\<lparr>deck := d, deck_index := 0, shuffles := k'\<rparr>)
      else s)"

text \<open>Lines 46 to 61: the draw and the move of one turn. The result is the player who
  moved and the state after the move.\<close>

definition take_turn :: "shuffle \<Rightarrow> int \<Rightarrow> game_state \<Rightarrow> error + (int \<times> game_state)" where
  "take_turn shuf num_players s =
     (case py_mod (turn s) num_players of Inl e \<Rightarrow> Inl e
      | Inr current_player \<Rightarrow>
     (let s1 = replenish shuf s in
      case getitem (deck s1) (deck_index s1) of Inl e \<Rightarrow> Inl e
      | Inr drawn \<Rightarrow>
     (let s2 = s1\<lparr>deck_index := deck_index s1 + 1\<rparr> in
      case list_index COLORS drawn of Inl e \<Rightarrow> Inl e
      | Inr color_index \<Rightarrow>
     (case getitem (positions s2) current_player of Inl e \<Rightarrow> Inl e
      | Inr pos \<Rightarrow>
     (case setitem (positions s2) current_player
             (if color_index > pos then color_index else color_index + BOARD_SIZE) of
        Inl e \<Rightarrow> Inl e
      | Inr ps \<Rightarrow> Inr (current_player, s2\<lparr>positions := ps\<rparr>))))))"

text \<open>Lines 63 to 66: the win check that follows the move. A turn raises, returns the
  result of the game, or leaves the state for the next turn.\<close>

datatype outcome = Raise error | Return game_result nat | Continue game_state

definition turn_outcome :: "shuffle \<Rightarrow> int \<Rightarrow> game_state \<Rightarrow> outcome" where
  "turn_outcome shuf num_players s =
     (case take_turn shuf num_players s of Inl e \<Rightarrow> Raise e
      | Inr (current_player, s') \<Rightarrow>
     (case getitem (positions s') current_player of Inl e \<Rightarrow> Raise e
      | Inr pos \<Rightarrow>
          if pos \<ge> BOARD_SIZE - 1
          then Return \<lparr>winner = current_player, turns = turn s' + 1\<rparr> (shuffles s')
          else Continue (s'\<lparr>turn := turn s' + 1\<rparr>)))"

text \<open>A turn that continues raises the position of the player who moved and leaves it
  below 5, so the distance of all positions to 5 decreases: the loop ends from every state.\<close>

definition distance :: "game_state \<Rightarrow> nat" where
  "distance s = sum_list (map (\<lambda>p. nat (5 - p)) (positions s))"

text \<open>Lines 45 to 66: \<^verbatim>\<open>while True\<close>.\<close>

function game_loop :: "shuffle \<Rightarrow> int \<Rightarrow> game_state \<Rightarrow> error + (game_result \<times> nat)" where
  "game_loop shuf num_players s =
     (case turn_outcome shuf num_players s of
        Raise e \<Rightarrow> Inl e
      | Return r k \<Rightarrow> Inr (r, k)
      | Continue s' \<Rightarrow> game_loop shuf num_players s')"
  by pat_completeness auto
termination
proof (relation "measure (\<lambda>(shuf, num_players, s). distance s)")
  show "wf (measure (\<lambda>(shuf, num_players, s). distance s))"
    by simp
next
  fix shuf :: shuffle and num_players :: int and s s' :: game_state
  assume cont: "turn_outcome shuf num_players s = Continue s'"
  have bounds: "list_index xs x = Inr i \<Longrightarrow> 0 \<le> i" for xs :: "string list" and x i
    by (induction xs arbitrary: i) (auto split: if_splits sum.splits)
  have less: "j < length xs \<Longrightarrow> nat (5 - v) < nat (5 - xs ! j) \<Longrightarrow>
      sum_list (map (\<lambda>p. nat (5 - p)) (xs[j := v])) < sum_list (map (\<lambda>p. nat (5 - p)) xs)"
    for j and xs :: "int list" and v
  proof (induction xs arbitrary: j)
    case Nil
    then show ?case by simp
  next
    case (Cons a xs)
    then show ?case by (cases j) auto
  qed
  from cont obtain cur s1 where
    tt: "take_turn shuf num_players s = Inr (cur, s1)"
    by (auto simp: turn_outcome_def split: sum.splits prod.splits)
  from cont tt obtain p' where
    p': "getitem (positions s1) cur = Inr p'" and low: "\<not> p' \<ge> BOARD_SIZE - 1"
    and s': "s' = s1\<lparr>turn := turn s1 + 1\<rparr>"
    by (auto simp: turn_outcome_def split: sum.splits if_splits)
  from tt have "\<exists>ci p. getitem (positions s) cur = Inr p
      \<and> setitem (positions s) cur (if ci > p then ci else ci + BOARD_SIZE) = Inr (positions s1)
      \<and> 0 \<le> ci"
    unfolding take_turn_def Let_def
    by (fastforce simp: replenish_def create_deck_def
        split: sum.splits if_splits dest: bounds)
  then obtain ci p where
    p: "getitem (positions s) cur = Inr p"
    and upd: "setitem (positions s) cur (if ci > p then ci else ci + BOARD_SIZE)
                = Inr (positions s1)"
    and ci: "0 \<le> ci"
    by blast
  have "setitem xs i v = Inr ys \<Longrightarrow> getitem ys i = Inr v"
    for xs ys :: "int list" and i v
    by (auto simp: getitem_def setitem_def Let_def split: if_splits)
  from this [OF upd]
  have "getitem (positions s1) cur = Inr (if ci > p then ci else ci + BOARD_SIZE)" .
  with p' have "p' = (if ci > p then ci else ci + BOARD_SIZE)"
    by simp
  with low ci have gt: "p < p'" and lt: "p' < 5"
    by (auto simp: BOARD_SIZE_def COLORS_def split: if_splits)
  define j where "j = nat (if cur < 0 then cur + int (length (positions s)) else cur)"
  from p have j: "j < length (positions s)" and pj: "positions s ! j = p"
    by (auto simp: getitem_def Let_def j_def split: if_splits)
  have "setitem xs i v = Inr ys \<Longrightarrow>
        ys = xs[nat (if i < 0 then i + int (length xs) else i) := v]"
    for xs ys :: "int list" and i v
    by (auto simp: setitem_def Let_def split: if_splits)
  from this [OF upd] have ps1: "positions s1 = (positions s)[j := p']"
    using \<open>p' = (if ci > p then ci else ci + BOARD_SIZE)\<close> by (simp add: j_def)
  have "sum_list (map (\<lambda>p. nat (5 - p)) ((positions s)[j := p']))
        < sum_list (map (\<lambda>p. nat (5 - p)) (positions s))"
    by (rule less [OF j]) (use gt lt pj in auto)
  then have "distance s' < distance s"
    by (simp add: distance_def ps1 s')
  then show "((shuf, num_players, s'), (shuf, num_players, s))
             \<in> measure (\<lambda>(shuf, num_players, s). distance s)"
    by simp
qed

declare game_loop.simps [simp del]

text \<open>Lines 24 to 66: the function, from shuffle counter \<open>k\<close>. It returns the result and
  the counter after the game.\<close>

definition play_game :: "shuffle \<Rightarrow> int \<Rightarrow> nat \<Rightarrow> error + (game_result \<times> nat)" where
  "play_game shuf num_players k = game_loop shuf num_players (initial_state shuf num_players k)"

text \<open>The state in which turn number \<open>n\<close> (counted from 0) of \<^verbatim>\<open>play_game\<close> starts:
  \<open>None\<close> when the game has ended or raised before that turn.\<close>

fun state_at :: "shuffle \<Rightarrow> int \<Rightarrow> nat \<Rightarrow> nat \<Rightarrow> game_state option" where
  "state_at shuf num_players k 0 = Some (initial_state shuf num_players k)"
| "state_at shuf num_players k (Suc n) =
     (case state_at shuf num_players k n of None \<Rightarrow> None
      | Some s \<Rightarrow>
     (case turn_outcome shuf num_players s of Continue s' \<Rightarrow> Some s' | _ \<Rightarrow> None))"

section \<open>Simulation and statistics\<close>

record stats =
  wins_per_player :: "(int \<times> int) list"
  avg_turns :: real
  min_turns :: int
  max_turns :: int

text \<open>\<^verbatim>\<open>wins_per_player[key] += 1\<close> on a \<^verbatim>\<open>defaultdict(int)\<close>: the dictionary is the
  list of its items in insertion order, and a missing key starts from \<^verbatim>\<open>int()\<close>, which
  is 0.\<close>

fun increment :: "int \<Rightarrow> (int \<times> int) list \<Rightarrow> (int \<times> int) list" where
  "increment key [] = [(key, 0 + 1)]"
| "increment key ((k, v) # kvs) =
     (if k = key then (k, v + 1) # kvs else (k, v) # increment key kvs)"

text \<open>
  \<^verbatim>\<open>a / b\<close> on integers returns a float: the IEEE double nearest to the quotient, ties
  to the even significand, computed from the integers themselves. A double is a multiple
  of \<open>2 ^ (e - 52)\<close>, where \<open>2 ^ e\<close> is the power of two at or below the quotient and
  \<open>e\<close> is at least \<open>- 1022\<close>. The model returns the value of that double as a real. A
  result of \<open>2 ^ 1024\<close> or more is no double, and the division raises; \<open>b = 0\<close> raises.
\<close>

text \<open>\<^verbatim>\<open>n.bit_length()\<close>.\<close>

fun bit_length :: "nat \<Rightarrow> nat" where
  "bit_length n = (if n = 0 then 0 else Suc (bit_length (n div 2)))"

declare bit_length.simps [simp del]

definition round_half_even :: "real \<Rightarrow> int" where
  "round_half_even x =
     (let f = \<lfloor>x\<rfloor>; d = x - real_of_int f
      in if d < 1 / 2 then f else if 1 / 2 < d then f + 1 else if even f then f else f + 1)"

text \<open>The exponent \<open>e\<close> with \<open>2 ^ e \<le> |a / b| < 2 ^ (e + 1)\<close>, for \<open>a\<close> and \<open>b\<close> other than 0.\<close>

definition binade :: "int \<Rightarrow> int \<Rightarrow> int" where
  "binade a b =
     (let d = int (bit_length (nat \<bar>a\<bar>)) - int (bit_length (nat \<bar>b\<bar>))
      in if 2 powi d \<le> \<bar>real_of_int a / real_of_int b\<bar> then d else d - 1)"

definition nearest_double :: "int \<Rightarrow> int \<Rightarrow> real" where
  "nearest_double a b =
     (if a = 0 then 0
      else let q = real_of_int a / real_of_int b;
               u = 2 powi (max (binade a b) (- 1022) - 52)
           in sgn q * real_of_int (round_half_even (\<bar>q\<bar> / u)) * u)"

definition py_truediv :: "int \<Rightarrow> int \<Rightarrow> error + real" where
  "py_truediv a b =
     (if b = 0 then Inl ZeroDivisionError
      else let r = nearest_double a b
           in if 2 ^ 1024 \<le> \<bar>r\<bar> then Inl OverflowError else Inr r)"

text \<open>Lines 84 to 90: the accumulators of the loop, and the loop over
  \<^verbatim>\<open>range(num_simulations)\<close>.\<close>

record tally =
  wins :: "(int \<times> int) list"
  all_turns :: "int list"
  rng :: nat

fun simulate :: "shuffle \<Rightarrow> int \<Rightarrow> nat \<Rightarrow> tally \<Rightarrow> error + tally" where
  "simulate shuf num_players 0 acc = Inr acc"
| "simulate shuf num_players (Suc n) acc =
     (case play_game shuf num_players (rng acc) of Inl e \<Rightarrow> Inl e
      | Inr (result, k) \<Rightarrow>
          simulate shuf num_players n
            \<lparr>wins = increment (winner result) (wins acc),
             all_turns = all_turns acc @ [turns result], rng = k\<rparr>)"

text \<open>Lines 92 to 98. The entries of the dictionary are evaluated in the order written, so
  the division comes before the two extremes.\<close>

definition run_simulations :: "shuffle \<Rightarrow> int \<Rightarrow> int \<Rightarrow> nat \<Rightarrow> error + (stats \<times> nat)" where
  "run_simulations shuf num_simulations num_players k =
     (case simulate shuf num_players (nat num_simulations)
             \<lparr>wins = [], all_turns = [], rng = k\<rparr> of
        Inl e \<Rightarrow> Inl e
      | Inr acc \<Rightarrow>
     (case py_truediv (sum_list (all_turns acc)) (int (length (all_turns acc))) of
        Inl e \<Rightarrow> Inl e
      | Inr avg \<Rightarrow>
     (case py_min (all_turns acc) of Inl e \<Rightarrow> Inl e
      | Inr lo \<Rightarrow>
     (case py_max (all_turns acc) of Inl e \<Rightarrow> Inl e
      | Inr hi \<Rightarrow>
          Inr (\<lparr>wins_per_player = wins acc, avg_turns = avg,
                min_turns = lo, max_turns = hi\<rparr>, rng acc)))))"

text \<open>The results of \<open>n\<close> games played one after the other from shuffle counter \<open>k\<close>, in
  the order played: what the statistics are statistics of.\<close>

fun game_results :: "shuffle \<Rightarrow> int \<Rightarrow> nat \<Rightarrow> nat \<Rightarrow> error + game_result list" where
  "game_results shuf num_players 0 k = Inr []"
| "game_results shuf num_players (Suc n) k =
     (case play_game shuf num_players k of Inl e \<Rightarrow> Inl e
      | Inr (result, k') \<Rightarrow>
     (case game_results shuf num_players n k' of Inl e \<Rightarrow> Inl e
      | Inr rs \<Rightarrow> Inr (result # rs)))"

section \<open>Basic facts\<close>

lemmas eval_defs =
  initial_state_def create_deck_def rigged_shuffle_def identity_shuffle_def COLORS_def
  BOARD_SIZE_def take_turn_def turn_outcome_def replenish_def py_mod_def getitem_def
  setitem_def Let_def numeral_2_eq_2 play_game_def

lemma valid_shuffle_length: "valid_shuffle shuf \<Longrightarrow> length (shuf k xs) = length xs"
  by (metis valid_shuffle_def mset_eq_length)

lemma valid_shuffle_set: "valid_shuffle shuf \<Longrightarrow> set (shuf k xs) = set xs"
  by (metis valid_shuffle_def mset_eq_setD)

lemma valid_identity_shuffle: "valid_shuffle identity_shuffle"
  by (simp add: valid_shuffle_def identity_shuffle_def)

lemma mset_move_to_front:
  assumes "a \<in> set xs" and "b \<in> set xs" and "a \<noteq> b"
  shows "mset (a # b # remove1 b (remove1 a xs)) = mset xs"
proof -
  have front: "mset (x # remove1 x ys) = mset ys" if "x \<in> set ys" for x :: 'a and ys
    using that by simp
  from assms have "b \<in> set (remove1 a xs)"
    by simp
  then have "mset (b # remove1 b (remove1 a xs)) = mset (remove1 a xs)"
    by (rule front)
  then have "mset (a # b # remove1 b (remove1 a xs)) = mset (a # remove1 a xs)"
    by (simp del: mset_remove1)
  also from assms have "\<dots> = mset xs"
    by (intro front)
  finally show ?thesis .
qed

lemma valid_rigged_shuffle: "valid_shuffle rigged_shuffle"
  unfolding valid_shuffle_def rigged_shuffle_def
  using mset_move_to_front [of "''Green''" _ "''Yellow''"] by simp

lemma positions_replenish: "positions (replenish shuf s) = positions s"
  and turn_replenish: "turn (replenish shuf s) = turn s"
  by (simp_all add: replenish_def create_deck_def)

text \<open>What a turn that does not raise has done, step by step.\<close>

lemma take_turn_Inr:
  assumes "take_turn shuf num_players s = Inr (cur, s')"
  obtains drawn ci p where
    "num_players \<noteq> 0" and "cur = turn s mod num_players"
    and "getitem (deck (replenish shuf s)) (deck_index (replenish shuf s)) = Inr drawn"
    and "list_index COLORS drawn = Inr ci"
    and "getitem (positions s) cur = Inr p"
    and "setitem (positions s) cur (if ci > p then ci else ci + BOARD_SIZE)
           = Inr (positions s')"
    and "s' = (replenish shuf s)
           \<lparr>deck_index := deck_index (replenish shuf s) + 1, positions := positions s'\<rparr>"
  using assms unfolding take_turn_def Let_def py_mod_def
  by (auto simp: positions_replenish split: sum.splits if_splits)

lemma getitem_setitem: "setitem xs i v = Inr ys \<Longrightarrow> getitem ys i = Inr v"
  by (auto simp: getitem_def setitem_def Let_def split: if_splits)

lemma list_index_COLORS:
  "list_index COLORS c = Inr i \<Longrightarrow> 0 \<le> i \<and> i \<le> 5"
  by (auto simp: COLORS_def split: if_splits)

lemma list_index_COLORS_mem:
  "c \<in> set COLORS \<Longrightarrow> \<exists>i. list_index COLORS c = Inr i"
  by (auto simp: COLORS_def)

lemma count_COLORS_twice:
  "count (mset (concat (replicate 2 COLORS))) c = (if c \<in> set COLORS then 2 else 0)"
  by (simp add: COLORS_def numeral_2_eq_2)

lemma take_turn_turn:
  "take_turn shuf num_players s = Inr (cur, s') \<Longrightarrow> turn s' = turn s"
proof -
  assume "take_turn shuf num_players s = Inr (cur, s')"
  then have
    "s' = (replenish shuf s)
           \<lparr>deck_index := deck_index (replenish shuf s) + 1, positions := positions s'\<rparr>"
    by (rule take_turn_Inr)
  from arg_cong [OF this, of turn] show ?thesis
    by (simp add: turn_replenish)
qed

lemma game_loop_Return:
  assumes "take_turn shuf num_players s = Inr (cur, s')"
    and "getitem (positions s') cur = Inr q" and "q \<ge> BOARD_SIZE - 1"
  shows "game_loop shuf num_players s = Inr (\<lparr>winner = cur, turns = turn s + 1\<rparr>, shuffles s')"
  using assms take_turn_turn [OF assms(1)]
  by (subst game_loop.simps) (simp add: turn_outcome_def)

lemma game_loop_Continue:
  assumes "take_turn shuf num_players s = Inr (cur, s')"
    and "getitem (positions s') cur = Inr q" and "\<not> q \<ge> BOARD_SIZE - 1"
  shows "game_loop shuf num_players s = game_loop shuf num_players (s'\<lparr>turn := turn s + 1\<rparr>)"
  using assms take_turn_turn [OF assms(1)]
  by (subst game_loop.simps) (simp add: turn_outcome_def)

lemma setitem_Inr:
  assumes "setitem xs i v = Inr ys"
  obtains j where "j < length xs" and "ys = xs[j := v]" and "getitem xs i = Inr (xs ! j)"
proof -
  let ?j = "nat (if i < 0 then i + int (length xs) else i)"
  from assms have "?j < length xs" and "ys = xs[?j := v]" and "getitem xs i = Inr (xs ! ?j)"
    by (auto simp: setitem_def getitem_def Let_def split: if_splits)
  then show thesis by (rule that)
qed

lemma getitem_mem: "getitem xs i = Inr x \<Longrightarrow> x \<in> set xs"
  by (auto simp: getitem_def Let_def split: if_splits)

lemma turn_outcome_Continue:
  assumes "turn_outcome shuf num_players s = Continue s'"
  obtains j q drawn where
    "num_players \<noteq> 0"
    and "j < length (positions s)" and "positions s' = (positions s)[j := q]"
    and "positions s ! j < q" and "0 \<le> q" and "q \<le> 4"
    and "getitem (deck (replenish shuf s)) (deck_index (replenish shuf s)) = Inr drawn"
    and "s' = (replenish shuf s)
           \<lparr>deck_index := deck_index (replenish shuf s) + 1,
            positions := (positions s)[j := q], turn := turn s + 1\<rparr>"
    and "list_index COLORS drawn = Inr q"
proof -
  from assms obtain cur s1 where
    tt: "take_turn shuf num_players s = Inr (cur, s1)"
    by (auto simp: turn_outcome_def split: sum.splits prod.splits)
  from assms tt obtain q where
    q: "getitem (positions s1) cur = Inr q" and low: "\<not> q \<ge> BOARD_SIZE - 1"
    and s': "s' = s1\<lparr>turn := turn s1 + 1\<rparr>"
    by (auto simp: turn_outcome_def split: sum.splits if_splits)
  from tt obtain drawn ci p where
    np: "num_players \<noteq> 0"
    and d: "getitem (deck (replenish shuf s)) (deck_index (replenish shuf s)) = Inr drawn"
    and ci: "list_index COLORS drawn = Inr ci"
    and p: "getitem (positions s) cur = Inr p"
    and upd: "setitem (positions s) cur (if ci > p then ci else ci + BOARD_SIZE)
           = Inr (positions s1)"
    and s1: "s1 = (replenish shuf s)
           \<lparr>deck_index := deck_index (replenish shuf s) + 1, positions := positions s1\<rparr>"
    by (rule take_turn_Inr)
  from getitem_setitem [OF upd] q
  have qeq: "q = (if ci > p then ci else ci + BOARD_SIZE)" by simp
  from list_index_COLORS [OF ci] have "0 \<le> ci" by simp
  with qeq low have pq: "p < q" and q0: "0 \<le> q" and q4: "q \<le> 4" and qci: "ci = q"
    by (auto simp: BOARD_SIZE_def COLORS_def split: if_splits)
  from upd obtain j where
    j: "j < length (positions s)" and ps: "positions s1 = (positions s)[j := q]"
    and pj: "getitem (positions s) cur = Inr (positions s ! j)"
    unfolding qeq [symmetric] by (rule setitem_Inr)
  from pj p have "positions s ! j = p" by simp
  moreover have "s' = (replenish shuf s)
           \<lparr>deck_index := deck_index (replenish shuf s) + 1,
            positions := (positions s)[j := q], turn := turn s + 1\<rparr>"
  proof -
    from s1 have "s1 = (replenish shuf s)
           \<lparr>deck_index := deck_index (replenish shuf s) + 1, positions := (positions s)[j := q]\<rparr>"
      by (simp only: ps)
    with s' take_turn_turn [OF tt] show ?thesis
      by simp
  qed
  ultimately show thesis
    using that np j ps pq q0 q4 d ci qci by simp
qed


lemma state_at_Suc:
  assumes "state_at shuf num_players k (Suc n) = Some s'"
  obtains s where "state_at shuf num_players k n = Some s"
    and "turn_outcome shuf num_players s = Continue s'"
  using assms by (auto split: option.splits outcome.splits)

lemma state_at_positions:
  "state_at shuf num_players k n = Some s \<Longrightarrow>
     (\<forall>p \<in> set (positions s). 0 \<le> p \<and> p \<le> 4)
     \<and> length (positions s) = nat num_players \<and> turn s = int n"
proof (induction n arbitrary: s)
  case 0
  then show ?case
    by (auto simp: initial_state_def create_deck_def)
next
  case (Suc n)
  from Suc.prems obtain s0 where
    s0: "state_at shuf num_players k n = Some s0"
    and step: "turn_outcome shuf num_players s0 = Continue s"
    by (rule state_at_Suc)
  from step obtain j q where
    ps: "positions s = (positions s0)[j := q]" and q: "0 \<le> q" "q \<le> 4"
    and s: "s = (replenish shuf s0)
           \<lparr>deck_index := deck_index (replenish shuf s0) + 1,
            positions := (positions s0)[j := q], turn := turn s0 + 1\<rparr>"
    by (rule turn_outcome_Continue)
  from arg_cong [OF s, of turn] have t: "turn s = turn s0 + 1"
    by simp
  from Suc.IH [OF s0] ps q t show ?case
    by (auto dest!: subsetD [OF set_update_subset_insert])
qed

section \<open>The deck\<close>

text \<open>
  Claim C7. Every deck that \<^verbatim>\<open>create_deck\<close> returns has 12 entries, and its multiset is
  two copies of each of the six colours and nothing else, whatever the call: the shuffle
  is a permutation of \<^verbatim>\<open>COLORS * 2\<close>, so no card is added, dropped or duplicated.
\<close>

theorem create_deck_composition:
  assumes "valid_shuffle shuf"
  shows "length (fst (create_deck shuf k)) = 12
       \<and> mset (fst (create_deck shuf k)) = mset (COLORS @ COLORS)
       \<and> (\<forall>c. count (mset (fst (create_deck shuf k))) c = (if c \<in> set COLORS then 2 else 0))
       \<and> distinct COLORS \<and> length COLORS = 6"
proof -
  have deck: "mset (fst (create_deck shuf k)) = mset (concat (replicate 2 COLORS))"
    using assms by (simp add: create_deck_def valid_shuffle_def)
  have "length (fst (create_deck shuf k)) = length (concat (replicate 2 COLORS))"
    using assms by (simp add: create_deck_def valid_shuffle_length)
  then have "length (fst (create_deck shuf k)) = 12"
    by (simp add: COLORS_def numeral_2_eq_2)
  moreover have "mset (fst (create_deck shuf k)) = mset (COLORS @ COLORS)"
    by (simp add: deck numeral_2_eq_2)
  moreover have "\<forall>c. count (mset (fst (create_deck shuf k))) c
                  = (if c \<in> set COLORS then 2 else 0)"
    unfolding deck by (simp only: count_COLORS_twice) simp
  moreover have "distinct COLORS \<and> length COLORS = 6"
    by (simp add: COLORS_def)
  ultimately show ?thesis by simp
qed

theorem create_deck_composition_witness:
  "valid_shuffle rigged_shuffle
   \<and> fst (create_deck rigged_shuffle 0) =
       [''Green'', ''Yellow'', ''Red'', ''Orange'', ''Blue'', ''Violet'',
        ''Red'', ''Orange'', ''Yellow'', ''Green'', ''Blue'', ''Violet'']
   \<and> length (fst (create_deck rigged_shuffle 0)) = 12
   \<and> count (mset (fst (create_deck rigged_shuffle 0))) ''Green'' = 2
   \<and> count (mset (fst (create_deck rigged_shuffle 0))) ''Pink'' = 0"
proof -
  have deck: "fst (create_deck rigged_shuffle 0) =
       [''Green'', ''Yellow'', ''Red'', ''Orange'', ''Blue'', ''Violet'',
        ''Red'', ''Orange'', ''Yellow'', ''Green'', ''Blue'', ''Violet'']"
    by (simp add: create_deck_def rigged_shuffle_def COLORS_def numeral_2_eq_2)
  have mem: "''Green'' \<in> set COLORS" "''Pink'' \<notin> set COLORS"
    by (simp_all add: COLORS_def)
  note composition = create_deck_composition [OF valid_rigged_shuffle, of 0]
  from composition have len: "length (fst (create_deck rigged_shuffle 0)) = 12"
    by (rule conjunct1)
  from composition have "\<forall>c. count (mset (fst (create_deck rigged_shuffle 0))) c
                           = (if c \<in> set COLORS then 2 else 0)"
    by (elim conjE)
  with mem have "count (mset (fst (create_deck rigged_shuffle 0))) ''Green'' = 2"
    and "count (mset (fst (create_deck rigged_shuffle 0))) ''Pink'' = 0"
    by simp_all
  with valid_rigged_shuffle deck len show ?thesis
    by (intro conjI)
qed

section \<open>One turn\<close>

text \<open>
  Claim C1. In every turn of \<^verbatim>\<open>play_game\<close> that does not raise, with \<open>C\<close> the index of
  the drawn card in \<^verbatim>\<open>COLORS\<close> and \<open>p\<close> the position of the current player (the player
  \<^verbatim>\<open>turn % num_players\<close>) before the move: the position after the move is \<open>C\<close> when
  \<open>C > p\<close>, and \<open>C + BOARD_SIZE\<close>, which is \<open>C + 6\<close>, otherwise. The statement holds in every
  state, so in every turn of a game.
\<close>

theorem take_turn_movement_rule:
  assumes "take_turn shuf num_players s = Inr (current_player, s')"
    and "getitem (deck (replenish shuf s)) (deck_index (replenish shuf s)) = Inr drawn"
    and "list_index COLORS drawn = Inr C"
    and "getitem (positions s) current_player = Inr p"
  shows "current_player = turn s mod num_players
       \<and> getitem (positions s') current_player = Inr (if C > p then C else C + BOARD_SIZE)
       \<and> BOARD_SIZE = 6"
proof -
  from assms(1) obtain drawn' ci p' where
    cur: "current_player = turn s mod num_players"
    and d: "getitem (deck (replenish shuf s)) (deck_index (replenish shuf s)) = Inr drawn'"
    and c: "list_index COLORS drawn' = Inr ci"
    and p: "getitem (positions s) current_player = Inr p'"
    and upd: "setitem (positions s) current_player (if ci > p' then ci else ci + BOARD_SIZE)
              = Inr (positions s')"
    by (rule take_turn_Inr)
  from d c p assms(2-4) have "drawn' = drawn" "ci = C" "p' = p"
    by simp_all
  with getitem_setitem [OF upd] cur show ?thesis
    by (simp add: BOARD_SIZE_def COLORS_def)
qed

theorem take_turn_movement_rule_witness:
  "take_turn rigged_shuffle 2 (initial_state rigged_shuffle 2 0) =
     Inr (0, \<lparr>positions = [3, 0],
              deck = [''Green'', ''Yellow'', ''Red'', ''Orange'', ''Blue'', ''Violet'',
                      ''Red'', ''Orange'', ''Yellow'', ''Green'', ''Blue'', ''Violet''],
              deck_index = 1, turn = 0, shuffles = 1\<rparr>)
   \<and> getitem (deck (replenish rigged_shuffle (initial_state rigged_shuffle 2 0)))
        (deck_index (replenish rigged_shuffle (initial_state rigged_shuffle 2 0)))
       = Inr ''Green''
   \<and> list_index COLORS ''Green'' = Inr 3
   \<and> getitem (positions (initial_state rigged_shuffle 2 0)) 0 = Inr 0
   \<and> getitem [3, 0] 0 = Inr (3::int)"
proof -
  have h1: "take_turn rigged_shuffle 2 (initial_state rigged_shuffle 2 0) =
     Inr (0, \<lparr>positions = [3, 0],
              deck = [''Green'', ''Yellow'', ''Red'', ''Orange'', ''Blue'', ''Violet'',
                      ''Red'', ''Orange'', ''Yellow'', ''Green'', ''Blue'', ''Violet''],
              deck_index = 1, turn = 0, shuffles = 1\<rparr>)"
    by (simp add: eval_defs)
  have h2: "getitem (deck (replenish rigged_shuffle (initial_state rigged_shuffle 2 0)))
        (deck_index (replenish rigged_shuffle (initial_state rigged_shuffle 2 0)))
       = Inr ''Green''"
    by (simp add: eval_defs)
  have h3: "list_index COLORS ''Green'' = Inr 3"
    by (simp add: COLORS_def)
  have h4: "getitem (positions (initial_state rigged_shuffle 2 0)) 0 = Inr 0"
    by (simp add: eval_defs)
  from take_turn_movement_rule [OF h1 h2 h3 h4] h1 h2 h3 h4 show ?thesis
    by simp
qed

text \<open>
  Claim C2. Right after a move, when the new position of the player who moved is at least
  \<open>BOARD_SIZE - 1\<close>, which is 5, the game ends in that turn: \<^verbatim>\<open>play_game\<close> returns
  the current player as winner and \<open>turn + 1\<close> as the number of turns, so the count
  starts from 1 and includes the winning turn.
\<close>

theorem win_check_returns:
  assumes "take_turn shuf num_players s = Inr (current_player, s')"
    and "getitem (positions s') current_player = Inr new_position"
    and "new_position \<ge> BOARD_SIZE - 1"
  shows "game_loop shuf num_players s
           = Inr (\<lparr>winner = current_player, turns = turn s + 1\<rparr>, shuffles s')
       \<and> BOARD_SIZE - 1 = 5"
  using game_loop_Return [OF assms] by (simp add: BOARD_SIZE_def COLORS_def)

theorem win_check_returns_witness:
  "take_turn identity_shuffle 2 (initial_state identity_shuffle 2 0) =
     Inr (0, \<lparr>positions = [6, 0],
              deck = [''Red'', ''Orange'', ''Yellow'', ''Green'', ''Blue'', ''Violet'',
                      ''Red'', ''Orange'', ''Yellow'', ''Green'', ''Blue'', ''Violet''],
              deck_index = 1, turn = 0, shuffles = 1\<rparr>)
   \<and> getitem [6, 0] 0 = Inr (6::int) \<and> 6 \<ge> BOARD_SIZE - 1
   \<and> play_game identity_shuffle 2 0 = Inr (\<lparr>winner = 0, turns = 1\<rparr>, 1)"
proof -
  let ?s' = "\<lparr>positions = [6, 0],
              deck = [''Red'', ''Orange'', ''Yellow'', ''Green'', ''Blue'', ''Violet'',
                      ''Red'', ''Orange'', ''Yellow'', ''Green'', ''Blue'', ''Violet''],
              deck_index = 1, turn = 0, shuffles = 1\<rparr>"
  have h1: "take_turn identity_shuffle 2 (initial_state identity_shuffle 2 0) = Inr (0, ?s')"
    by (simp add: eval_defs)
  have h2: "getitem (positions ?s') 0 = Inr 6"
    by (simp add: getitem_def)
  have h3: "6 \<ge> BOARD_SIZE - 1"
    by (simp add: BOARD_SIZE_def COLORS_def)
  have t0: "turn (initial_state identity_shuffle 2 0) = 0"
    by (simp add: initial_state_def create_deck_def)
  from win_check_returns [OF h1 h2 h3] h1 h2 h3 t0 show ?thesis
    by (simp add: play_game_def)
qed

text \<open>
  Claim C6. In every turn of a game, the position of the player who moves is at most 4
  before the move and strictly greater after the move than before it.
\<close>

theorem position_strictly_increases:
  assumes "state_at shuf num_players k n = Some s"
    and "take_turn shuf num_players s = Inr (current_player, s')"
    and "getitem (positions s) current_player = Inr p"
    and "getitem (positions s') current_player = Inr p'"
  shows "p \<le> 4 \<and> p < p'"
proof -
  from state_at_positions [OF assms(1)] getitem_mem [OF assms(3)]
  have p: "p \<le> 4" by simp
  from assms(2) obtain drawn ci p0 where
    ci: "list_index COLORS drawn = Inr ci"
    and p0: "getitem (positions s) current_player = Inr p0"
    and upd: "setitem (positions s) current_player (if ci > p0 then ci else ci + BOARD_SIZE)
           = Inr (positions s')"
    by (rule take_turn_Inr)
  from p0 assms(3) have "p0 = p" by simp
  with getitem_setitem [OF upd] assms(4)
  have "p' = (if ci > p then ci else ci + BOARD_SIZE)" by simp
  with list_index_COLORS [OF ci] p show ?thesis
    by (auto simp: BOARD_SIZE_def COLORS_def)
qed


text \<open>The third turn of a two-player game on the rigged deck: the first player stands on 3
  and draws Red.\<close>

lemma state_at_rigged_2:
  "state_at rigged_shuffle 2 0 2 =
     Some \<lparr>positions = [3, 2], deck = rigged_deck, deck_index = 2, turn = 2, shuffles = 1\<rparr>"
  by (simp add: eval_defs rigged_deck_def)

lemma take_turn_rigged_2:
  "take_turn rigged_shuffle 2
     \<lparr>positions = [3, 2], deck = rigged_deck, deck_index = 2, turn = 2, shuffles = 1\<rparr>
   = Inr (0, \<lparr>positions = [6, 2], deck = rigged_deck, deck_index = 3, turn = 2,
                shuffles = 1\<rparr>)"
  by (simp add: eval_defs rigged_deck_def)

theorem position_strictly_increases_witness:
  "state_at rigged_shuffle 2 0 2 =
     Some \<lparr>positions = [3, 2], deck = rigged_deck, deck_index = 2, turn = 2, shuffles = 1\<rparr>
   \<and> take_turn rigged_shuffle 2
       \<lparr>positions = [3, 2], deck = rigged_deck, deck_index = 2, turn = 2, shuffles = 1\<rparr>
     = Inr (0, \<lparr>positions = [6, 2], deck = rigged_deck, deck_index = 3, turn = 2,
                shuffles = 1\<rparr>)
   \<and> getitem [3, 2] 0 = Inr (3::int) \<and> getitem [6, 2] 0 = Inr (6::int)
   \<and> (3::int) \<le> 4 \<and> (3::int) < 6"
proof -
  let ?s = "\<lparr>positions = [3, 2], deck = rigged_deck, deck_index = 2, turn = 2,
            shuffles = 1\<rparr>"
  let ?s' = "\<lparr>positions = [6, 2], deck = rigged_deck, deck_index = 3, turn = 2,
            shuffles = 1\<rparr>"
  have h3: "getitem (positions ?s) 0 = Inr 3" and h4: "getitem (positions ?s') 0 = Inr 6"
    by (simp_all add: getitem_def)
  from position_strictly_increases [OF state_at_rigged_2 take_turn_rigged_2 h3 h4]
    state_at_rigged_2 take_turn_rigged_2 h3 h4
  show ?thesis by simp
qed

text \<open>
  Claim C10. A wrapping move ends the game: when the colour index \<open>C\<close> of the drawn card is
  at most the position of the player who moves, the new position is \<open>C + 6\<close>, at least 6
  and so at least \<open>BOARD_SIZE - 1 = 5\<close>, and the game returns that player as the winner
  of this very turn. Hence no position is 5 or more when a turn of a game starts.
\<close>

theorem wrapping_move_wins:
  "(take_turn shuf num_players s = Inr (current_player, s')
      \<and> getitem (deck (replenish shuf s)) (deck_index (replenish shuf s)) = Inr drawn
      \<and> list_index COLORS drawn = Inr C
      \<and> getitem (positions s) current_player = Inr p
      \<and> C \<le> p
    \<longrightarrow> getitem (positions s') current_player = Inr (C + 6)
      \<and> C + 6 \<ge> 6 \<and> BOARD_SIZE - 1 = 5
      \<and> game_loop shuf num_players s
            = Inr (\<lparr>winner = current_player, turns = turn s + 1\<rparr>, shuffles s'))
   \<and> (state_at shuf num_players k n = Some t \<longrightarrow> (\<forall>q \<in> set (positions t). q < 5))"
proof (rule conjI; rule impI; (elim conjE)?)
  assume tt: "take_turn shuf num_players s = Inr (current_player, s')"
    and d: "getitem (deck (replenish shuf s)) (deck_index (replenish shuf s)) = Inr drawn"
    and c: "list_index COLORS drawn = Inr C"
    and p: "getitem (positions s) current_player = Inr p"
    and wrap: "C \<le> p"
  from tt obtain drawn' ci p0 where
    d': "getitem (deck (replenish shuf s)) (deck_index (replenish shuf s)) = Inr drawn'"
    and ci: "list_index COLORS drawn' = Inr ci"
    and p0: "getitem (positions s) current_player = Inr p0"
    and upd: "setitem (positions s) current_player (if ci > p0 then ci else ci + BOARD_SIZE)
           = Inr (positions s')"
    by (rule take_turn_Inr)
  from d d' c ci p p0 have "ci = C" "p0 = p" by simp_all
  with getitem_setitem [OF upd] wrap
  have new: "getitem (positions s') current_player = Inr (C + 6)"
    by (simp add: BOARD_SIZE_def COLORS_def)
  from list_index_COLORS [OF c] have C6: "C + 6 \<ge> 6" by simp
  then have "C + 6 \<ge> BOARD_SIZE - 1"
    by (simp add: BOARD_SIZE_def COLORS_def)
  from game_loop_Return [OF tt new this] new C6
  show "getitem (positions s') current_player = Inr (C + 6)
      \<and> C + 6 \<ge> 6 \<and> BOARD_SIZE - 1 = 5
      \<and> game_loop shuf num_players s
            = Inr (\<lparr>winner = current_player, turns = turn s + 1\<rparr>, shuffles s')"
    by (simp add: BOARD_SIZE_def COLORS_def)
next
  assume "state_at shuf num_players k n = Some t"
  from state_at_positions [OF this] show "\<forall>q \<in> set (positions t). q < 5"
    by auto
qed

theorem wrapping_move_wins_witness:
  "take_turn rigged_shuffle 2
       \<lparr>positions = [3, 2], deck = rigged_deck, deck_index = 2, turn = 2, shuffles = 1\<rparr>
     = Inr (0, \<lparr>positions = [6, 2], deck = rigged_deck, deck_index = 3, turn = 2,
                shuffles = 1\<rparr>)
   \<and> list_index COLORS ''Red'' = Inr 0 \<and> getitem [3, 2] 0 = Inr (3::int)
   \<and> getitem [6, 2] 0 = Inr (0 + 6 :: int)
   \<and> game_loop rigged_shuffle 2
       \<lparr>positions = [3, 2], deck = rigged_deck, deck_index = 2, turn = 2, shuffles = 1\<rparr>
     = Inr (\<lparr>winner = 0, turns = 3\<rparr>, 1)
   \<and> state_at rigged_shuffle 2 0 2 =
     Some \<lparr>positions = [3, 2], deck = rigged_deck, deck_index = 2, turn = 2, shuffles = 1\<rparr>
   \<and> (3::int) < 5 \<and> (2::int) < 5"
proof -
  let ?s = "\<lparr>positions = [3, 2], deck = rigged_deck, deck_index = 2, turn = 2,
            shuffles = 1\<rparr>"
  let ?s' = "\<lparr>positions = [6, 2], deck = rigged_deck, deck_index = 3, turn = 2,
            shuffles = 1\<rparr>"
  have h2: "getitem (deck (replenish rigged_shuffle ?s)) (deck_index (replenish rigged_shuffle ?s))
            = Inr ''Red''"
    by (simp add: replenish_def rigged_deck_def getitem_def)
  have h3: "list_index COLORS ''Red'' = Inr 0"
    by (simp add: COLORS_def)
  have h4: "getitem (positions ?s) 0 = Inr 3"
    by (simp add: getitem_def)
  have h5: "(0::int) \<le> 3"
    by simp
  note inst = wrapping_move_wins [of rigged_shuffle 2 ?s 0 ?s' "''Red''" 0 3 0 2 ?s]
  have "getitem (positions ?s') 0 = Inr (0 + 6) \<and> (0::int) + 6 \<ge> 6 \<and> BOARD_SIZE - 1 = 5
      \<and> game_loop rigged_shuffle 2 ?s
          = Inr (\<lparr>winner = 0, turns = turn ?s + 1\<rparr>, shuffles ?s')"
    by (rule inst [THEN conjunct1, THEN mp]) (intro conjI take_turn_rigged_2 h2 h3 h4 h5)
  then have won: "game_loop rigged_shuffle 2 ?s = Inr (\<lparr>winner = 0, turns = 3\<rparr>, 1)"
    by simp
  have "\<forall>q \<in> set (positions ?s). q < 5"
    by (rule inst [THEN conjunct2, THEN mp]) (rule state_at_rigged_2)
  with won take_turn_rigged_2 state_at_rigged_2 h3 show ?thesis
    by (simp add: getitem_def)
qed

section \<open>A whole game\<close>

lemma replenish_cursor:
  assumes "\<forall>k xs. length (shuf k xs) = length xs" and "0 \<le> deck_index s"
  shows "0 \<le> deck_index (replenish shuf s)
       \<and> deck_index (replenish shuf s) < int (length (deck (replenish shuf s)))"
  using assms by (simp add: replenish_def create_deck_def COLORS_def numeral_2_eq_2)

lemma replenish_deck_subset:
  assumes "valid_shuffle shuf" and "set (deck s) \<subseteq> set COLORS"
  shows "set (deck (replenish shuf s)) \<subseteq> set COLORS"
  using assms by (simp add: replenish_def create_deck_def valid_shuffle_set)

lemma getitem_nonneg:
  "0 \<le> i \<Longrightarrow> i < int (length xs) \<Longrightarrow> getitem xs i = Inr (xs ! nat i)"
  by (simp add: getitem_def)

lemma setitem_nonneg:
  "0 \<le> i \<Longrightarrow> i < int (length xs) \<Longrightarrow> setitem xs i v = Inr (xs[nat i := v])"
  by (simp add: setitem_def)

lemma take_turn_total:
  assumes "valid_shuffle shuf" and "1 \<le> num_players"
    and "length (positions s) = nat num_players" and "0 \<le> deck_index s"
    and "set (deck s) \<subseteq> set COLORS"  and "0 \<le> turn s"
  obtains cur s' q where "take_turn shuf num_players s = Inr (cur, s')"
    and "0 \<le> cur" and "cur < num_players"
    and "getitem (positions s') cur = Inr q"
    and "length (positions s') = nat num_players" and "0 \<le> deck_index s'"
    and "set (deck s') \<subseteq> set COLORS"
proof -
  let ?cur = "turn s mod num_players"
  let ?s1 = "replenish shuf s"
  let ?drawn = "deck ?s1 ! nat (deck_index ?s1)"
  from assms(2) have cur: "0 \<le> ?cur" "?cur < num_players"
    by simp_all
  with assms(3) have curlen: "?cur < int (length (positions s))"
    by simp
  from assms(1) have len: "\<forall>k xs. length (shuf k xs) = length xs"
    by (simp add: valid_shuffle_length)
  from replenish_cursor [OF len assms(4)]
  have di: "0 \<le> deck_index ?s1" "deck_index ?s1 < int (length (deck ?s1))"
    by simp_all
  then have drawn: "getitem (deck ?s1) (deck_index ?s1) = Inr ?drawn"
    by (rule getitem_nonneg)
  from di have "?drawn \<in> set (deck ?s1)"
    by simp
  with replenish_deck_subset [OF assms(1,5)] have "?drawn \<in> set COLORS"
    by blast
  then obtain ci where ci: "list_index COLORS ?drawn = Inr ci"
    using list_index_COLORS_mem by blast
  let ?p = "positions s ! nat ?cur"
  let ?q = "if ci > ?p then ci else ci + BOARD_SIZE"
  let ?s' = "?s1\<lparr>deck_index := deck_index ?s1 + 1, positions := (positions s)[nat ?cur := ?q]\<rparr>"
  have p: "getitem (positions s) ?cur = Inr ?p"
    using cur(1) curlen by (rule getitem_nonneg)
  have upd: "setitem (positions s) ?cur ?q = Inr ((positions s)[nat ?cur := ?q])"
    using cur(1) curlen by (rule setitem_nonneg)
  from assms(2) have tt: "take_turn shuf num_players s = Inr (?cur, ?s')"
    unfolding take_turn_def Let_def
    by (simp add: py_mod_def drawn ci positions_replenish turn_replenish p upd)
  have q: "getitem (positions ?s') ?cur = Inr ?q"
    using getitem_setitem [OF upd] by simp
  have len': "length (positions ?s') = nat num_players"
    using assms(3) by simp
  have di': "0 \<le> deck_index ?s'"
    using di by simp
  have deck': "set (deck ?s') \<subseteq> set COLORS"
    using replenish_deck_subset [OF assms(1,5)] by simp
  show thesis
    by (rule that [OF tt cur q len' di' deck'])
qed

lemma game_loop_returns:
  assumes "valid_shuffle shuf" and "1 \<le> num_players"
    and "length (positions s) = nat num_players" and "0 \<le> deck_index s"
    and "set (deck s) \<subseteq> set COLORS"  and "0 \<le> turn s"
  shows "\<exists>r k'. game_loop shuf num_players s = Inr (r, k')
           \<and> 0 \<le> winner r \<and> winner r < num_players \<and> turn s < turns r"
  using assms
proof (induction shuf num_players s rule: game_loop.induct)
  case (1 shuf num_players s)
  from "1.prems" obtain cur s' q where
    tt: "take_turn shuf num_players s = Inr (cur, s')"
    and cur: "0 \<le> cur" "cur < num_players"
    and q: "getitem (positions s') cur = Inr q"
    and inv: "length (positions s') = nat num_players" "0 \<le> deck_index s'"
      "set (deck s') \<subseteq> set COLORS"
    by (rule take_turn_total)
  show ?case
  proof (cases "q \<ge> BOARD_SIZE - 1")
    case True
    from game_loop_Return [OF tt q True] cur show ?thesis
      by simp
  next
    case False
    let ?next = "s'\<lparr>turn := turn s + 1\<rparr>"
    from tt q False take_turn_turn [OF tt]
    have "turn_outcome shuf num_players s = Continue ?next"
      by (simp add: turn_outcome_def)
    from "1.IH" [OF this "1.prems"(1,2)] inv "1.prems"(6)
    obtain r k' where "game_loop shuf num_players ?next = Inr (r, k')"
      and "0 \<le> winner r" and "winner r < num_players" and "turn ?next < turns r"
      by auto
    with game_loop_Continue [OF tt q False] show ?thesis
      by simp
  qed
qed

lemma initial_state_invariant:
  assumes "valid_shuffle shuf"
  shows "length (positions (initial_state shuf num_players k)) = nat num_players"
    and "deck_index (initial_state shuf num_players k) = 0"
    and "set (deck (initial_state shuf num_players k)) \<subseteq> set COLORS"
    and "turn (initial_state shuf num_players k) = 0"
  using assms
  by (simp_all add: initial_state_def create_deck_def valid_shuffle_set numeral_2_eq_2)

text \<open>
  Claim C4. For every number of players from 1 on and every sequence of decks that the
  shuffle supplies, \<^verbatim>\<open>play_game\<close> returns: it raises nothing, and its result has one winner,
  whose index is at least 0 and less than \<^verbatim>\<open>num_players\<close>, and a number of turns of at
  least 1. That the loop ends is the termination proof of \<open>game_loop\<close>, which holds from
  every state.
\<close>

theorem play_game_terminates:
  assumes "valid_shuffle shuf" and "1 \<le> num_players"
  shows "\<exists>r k'. play_game shuf num_players k = Inr (r, k')
           \<and> 0 \<le> winner r \<and> winner r < num_players \<and> 1 \<le> turns r"
proof -
  let ?s = "initial_state shuf num_players k"
  from initial_state_invariant [OF assms(1), of num_players k]
  have "length (positions ?s) = nat num_players" and "0 \<le> deck_index ?s"
    and "set (deck ?s) \<subseteq> set COLORS" and "0 \<le> turn ?s" and t: "turn ?s = 0"
    by simp_all
  from game_loop_returns [OF assms this(1-4)] t show ?thesis
    by (auto simp: play_game_def)
qed


lemma play_game_rigged_2:
  "play_game rigged_shuffle 2 0 = Inr (\<lparr>winner = 0, turns = 3\<rparr>, 1)"
  by (simp add: game_loop.simps eval_defs)

theorem play_game_terminates_witness:
  "valid_shuffle rigged_shuffle \<and> (1::int) \<le> 2
   \<and> play_game rigged_shuffle 2 0 = Inr (\<lparr>winner = 0, turns = 3\<rparr>, 1)
   \<and> (\<exists>r k'. play_game rigged_shuffle 2 0 = Inr (r, k')
           \<and> 0 \<le> winner r \<and> winner r < 2 \<and> 1 \<le> turns r)"
proof -
  have two: "(1::int) \<le> 2"
    by simp
  from play_game_terminates [OF valid_rigged_shuffle two, of 0]
    valid_rigged_shuffle two play_game_rigged_2
  show ?thesis by (intro conjI)
qed

section \<open>The rigged scenario\<close>

text \<open>
  Claim C3, as stated, fails on the code. In \<^verbatim>\<open>COLORS\<close> Green has index 3 and Yellow has
  index 2, not 2 and 1: with Green and Yellow on top of the deck of a one-player game, the
  first turn moves the player from 0 to 3, not to 2, and the second turn moves it to
  \<open>2 + 6 = 8\<close>, not to 7.
\<close>

theorem rigged_scenario_counterexample:
  "list_index COLORS ''Green'' = Inr 3 \<and> list_index COLORS ''Yellow'' = Inr 2
   \<and> state_at rigged_shuffle 1 0 1 =
       Some \<lparr>positions = [3], deck = rigged_deck, deck_index = 1, turn = 1, shuffles = 1\<rparr>
   \<and> state_at rigged_shuffle 1 0 1 \<noteq>
       Some \<lparr>positions = [2], deck = rigged_deck, deck_index = 1, turn = 1, shuffles = 1\<rparr>
   \<and> take_turn rigged_shuffle 1
       \<lparr>positions = [3], deck = rigged_deck, deck_index = 1, turn = 1, shuffles = 1\<rparr>
     = Inr (0, \<lparr>positions = [8], deck = rigged_deck, deck_index = 2, turn = 1,
                shuffles = 1\<rparr>)
   \<and> take_turn rigged_shuffle 1
       \<lparr>positions = [3], deck = rigged_deck, deck_index = 1, turn = 1, shuffles = 1\<rparr>
     \<noteq> Inr (0, \<lparr>positions = [7], deck = rigged_deck, deck_index = 2, turn = 1,
                shuffles = 1\<rparr>)"
  by (simp add: eval_defs rigged_deck_def)

text \<open>
  Claim C3, amended. For every deck that starts with Green and Yellow, a one-player game
  draws Green (index 3) in turn 1 and moves from 0 to 3, draws Yellow (index 2) in turn 2
  and moves to \<open>2 + 6 = 8\<close>, which meets the win threshold, and returns winner 0 after 2
  turns.
\<close>

theorem rigged_scenario:
  assumes "fst (create_deck shuf k) = ''Green'' # ''Yellow'' # rest"
  shows "list_index COLORS ''Green'' = Inr 3 \<and> list_index COLORS ''Yellow'' = Inr 2
   \<and> state_at shuf 1 k 0 =
       Some \<lparr>positions = [0], deck = ''Green'' # ''Yellow'' # rest, deck_index = 0, turn = 0,
             shuffles = Suc k\<rparr>
   \<and> state_at shuf 1 k 1 =
       Some \<lparr>positions = [3], deck = ''Green'' # ''Yellow'' # rest, deck_index = 1, turn = 1,
             shuffles = Suc k\<rparr>
   \<and> take_turn shuf 1
       \<lparr>positions = [3], deck = ''Green'' # ''Yellow'' # rest, deck_index = 1, turn = 1,
        shuffles = Suc k\<rparr>
     = Inr (0, \<lparr>positions = [2 + 6], deck = ''Green'' # ''Yellow'' # rest, deck_index = 2,
                turn = 1, shuffles = Suc k\<rparr>)
   \<and> 2 + 6 \<ge> BOARD_SIZE - 1
   \<and> play_game shuf 1 k = Inr (\<lparr>winner = 0, turns = 2\<rparr>, Suc k)"
proof -
  let ?deck = "''Green'' # ''Yellow'' # rest"
  let ?s0 = "\<lparr>positions = [0], deck = ?deck, deck_index = 0, turn = 0, shuffles = Suc k\<rparr>"
  let ?s1 = "\<lparr>positions = [3], deck = ?deck, deck_index = 1, turn = 1, shuffles = Suc k\<rparr>"
  let ?s2 = "\<lparr>positions = [2 + 6], deck = ?deck, deck_index = 2, turn = 1, shuffles = Suc k\<rparr>"
  from assms have init: "initial_state shuf 1 k = ?s0"
    by (simp add: initial_state_def create_deck_def)
  have green: "list_index COLORS ''Green'' = Inr 3"
    and yellow: "list_index COLORS ''Yellow'' = Inr 2"
    by (simp_all add: COLORS_def)
  have first: "turn_outcome shuf 1 ?s0 = Continue ?s1"
    by (simp add: turn_outcome_def take_turn_def py_mod_def replenish_def getitem_def
        setitem_def green BOARD_SIZE_def COLORS_def)
  have second: "take_turn shuf 1 ?s1 = Inr (0, ?s2)"
    by (simp add: take_turn_def py_mod_def replenish_def getitem_def setitem_def yellow
        BOARD_SIZE_def COLORS_def)
  have win: "2 + 6 \<ge> BOARD_SIZE - 1"
    by (simp add: BOARD_SIZE_def COLORS_def)
  have "game_loop shuf 1 ?s0 = game_loop shuf 1 ?s1"
    by (subst game_loop.simps) (simp add: first)
  also have "\<dots> = Inr (\<lparr>winner = 0, turns = 2\<rparr>, Suc k)"
    using game_loop_Return [OF second _ win] by (simp add: getitem_def)
  finally have "play_game shuf 1 k = Inr (\<lparr>winner = 0, turns = 2\<rparr>, Suc k)"
    by (simp add: play_game_def init)
  with green yellow init first second win show ?thesis
    by simp
qed

theorem rigged_scenario_witness:
  "fst (create_deck rigged_shuffle 0) =
     ''Green'' # ''Yellow'' # [''Red'', ''Orange'', ''Blue'', ''Violet'',
        ''Red'', ''Orange'', ''Yellow'', ''Green'', ''Blue'', ''Violet'']
   \<and> state_at rigged_shuffle 1 0 1 =
       Some \<lparr>positions = [3], deck = rigged_deck, deck_index = 1, turn = 1,
             shuffles = Suc 0\<rparr>
   \<and> play_game rigged_shuffle 1 0 = Inr (\<lparr>winner = 0, turns = 2\<rparr>, Suc 0)"
proof -
  have deck: "fst (create_deck rigged_shuffle 0) =
     ''Green'' # ''Yellow'' # [''Red'', ''Orange'', ''Blue'', ''Violet'',
        ''Red'', ''Orange'', ''Yellow'', ''Green'', ''Blue'', ''Violet'']"
    by (simp add: create_deck_def rigged_shuffle_def COLORS_def numeral_2_eq_2)
  note inst = rigged_scenario [OF deck]
  from inst have "state_at rigged_shuffle 1 0 1 =
       Some \<lparr>positions = [3], deck = ''Green'' # ''Yellow'' # [''Red'', ''Orange'', ''Blue'',
          ''Violet'', ''Red'', ''Orange'', ''Yellow'', ''Green'', ''Blue'', ''Violet''],
          deck_index = 1, turn = 1, shuffles = Suc 0\<rparr>"
    by (elim conjE)
  moreover from inst
  have "play_game rigged_shuffle 1 0 = Inr (\<lparr>winner = 0, turns = 2\<rparr>, Suc 0)"
    by (elim conjE)
  ultimately show ?thesis
    unfolding rigged_deck_def using deck by (intro conjI)
qed

section \<open>Deck replenishment\<close>

lemma stacked_length: "\<forall>k xs. length (stacked_shuffle k xs) = length xs"
  by (simp add: stacked_shuffle_def)

lemma play_game_stacked:
  "play_game stacked_shuffle 4 0 = Inr (\<lparr>winner = 0, turns = 17\<rparr>, 2)"
  by (simp add: game_loop.simps eval_defs stacked_shuffle_def eval_nat_numeral)

lemma replenish_count:
  assumes "\<forall>k xs. length (shuf k xs) = length xs"
    and "length (deck s) = 12" and "0 \<le> deck_index s" and "deck_index s \<le> 12"
  shows "length (deck (replenish shuf s)) = 12"
    and "0 \<le> deck_index (replenish shuf s)"
    and "deck_index (replenish shuf s) < 12"
    and "12 * int (shuffles (replenish shuf s)) + deck_index (replenish shuf s)
         = 12 * int (shuffles s) + deck_index s"
  using assms by (auto simp: replenish_def create_deck_def COLORS_def numeral_2_eq_2)

lemma take_turn_shuffles:
  assumes "take_turn shuf num_players s = Inr (cur, s')"
  shows "shuffles s' = shuffles (replenish shuf s)"
proof -
  from assms have
    "s' = (replenish shuf s)
           \<lparr>deck_index := deck_index (replenish shuf s) + 1, positions := positions s'\<rparr>"
    by (rule take_turn_Inr)
  from arg_cong [OF this, of shuffles] show ?thesis
    by simp
qed

lemma turn_outcome_Return:
  assumes "turn_outcome shuf num_players s = Return r k'"
  shows "turns r = turn s + 1 \<and> k' = shuffles (replenish shuf s)"
proof -
  from assms obtain cur s' where
    tt: "take_turn shuf num_players s = Inr (cur, s')"
    by (auto simp: turn_outcome_def split: sum.splits prod.splits)
  from assms tt have "turns r = turn s' + 1" and "k' = shuffles s'"
    by (auto simp: turn_outcome_def split: sum.splits if_splits)
  with take_turn_turn [OF tt] take_turn_shuffles [OF tt] show ?thesis
    by simp
qed

lemma game_loop_shuffles:
  assumes "\<forall>k xs. length (shuf k xs) = length xs"
    and "length (deck s) = 12" and "0 \<le> deck_index s" and "deck_index s \<le> 12"
    and "turn s + 12 + 12 * int k = 12 * int (shuffles s) + deck_index s"
    and "game_loop shuf num_players s = Inr (r, k')"
  shows "turns r + 12 * int k \<le> 12 * int k'"
  using assms
proof (induction shuf num_players s rule: game_loop.induct)
  case (1 shuf num_players s)
  note fresh = replenish_count [OF "1.prems"(1-4)]
  show ?case
  proof (cases "turn_outcome shuf num_players s")
    case (Raise e)
    with "1.prems"(6) show ?thesis
      by (simp add: game_loop.simps)
  next
    case (Return r0 k0)
    with "1.prems"(6) have "r0 = r" and "k0 = k'"
      by (simp_all add: game_loop.simps)
    with turn_outcome_Return [OF Return]
    have "turns r = turn s + 1" and "k' = shuffles (replenish shuf s)"
      by simp_all
    with fresh "1.prems"(5) show ?thesis
      by simp
  next
    case (Continue s')
    from Continue obtain j q where
      s': "s' = (replenish shuf s)
           \<lparr>deck_index := deck_index (replenish shuf s) + 1,
            positions := (positions s)[j := q], turn := turn s + 1\<rparr>"
      by (rule turn_outcome_Continue)
    from arg_cong [OF s', of deck] arg_cong [OF s', of deck_index]
      arg_cong [OF s', of shuffles] arg_cong [OF s', of turn]
    have "deck s' = deck (replenish shuf s)"
      and "deck_index s' = deck_index (replenish shuf s) + 1"
      and "shuffles s' = shuffles (replenish shuf s)" and "turn s' = turn s + 1"
      by simp_all
    with fresh "1.prems"(5)
    have "length (deck s') = 12" and "0 \<le> deck_index s'" and "deck_index s' \<le> 12"
      and "turn s' + 12 + 12 * int k = 12 * int (shuffles s') + deck_index s'"
      by simp_all
    moreover from Continue "1.prems"(6) have "game_loop shuf num_players s' = Inr (r, k')"
      by (simp add: game_loop.simps)
    ultimately show ?thesis
      using "1.IH" [OF Continue "1.prems"(1)] by simp
  qed
qed

lemma state_at_cards:
  assumes "\<forall>k xs. length (shuf k xs) = length xs"
    and "state_at shuf num_players k n = Some s"
  shows "length (deck s) = 12 \<and> 0 \<le> deck_index s \<and> deck_index s \<le> 12
       \<and> turn s + 12 + 12 * int k = 12 * int (shuffles s) + deck_index s"
  using assms(2)
proof (induction n arbitrary: s)
  case 0
  with assms(1) show ?case
    by (auto simp: initial_state_def create_deck_def COLORS_def numeral_2_eq_2)
next
  case (Suc n)
  from Suc.prems obtain s0 where
    s0: "state_at shuf num_players k n = Some s0"
    and step: "turn_outcome shuf num_players s0 = Continue s"
    by (rule state_at_Suc)
  from Suc.IH [OF s0] have inv: "length (deck s0) = 12" "0 \<le> deck_index s0"
      "deck_index s0 \<le> 12"
      "turn s0 + 12 + 12 * int k = 12 * int (shuffles s0) + deck_index s0"
    by simp_all
  note fresh = replenish_count [OF assms(1) inv(1-3)]
  from step obtain j q where
    s: "s = (replenish shuf s0)
           \<lparr>deck_index := deck_index (replenish shuf s0) + 1,
            positions := (positions s0)[j := q], turn := turn s0 + 1\<rparr>"
    by (rule turn_outcome_Continue)
  from arg_cong [OF s, of deck] arg_cong [OF s, of deck_index]
    arg_cong [OF s, of shuffles] arg_cong [OF s, of turn]
  have "deck s = deck (replenish shuf s0)"
    and "deck_index s = deck_index (replenish shuf s0) + 1"
    and "shuffles s = shuffles (replenish shuf s0)" and "turn s = turn s0 + 1"
    by simp_all
  with fresh inv(4) show ?case
    by simp
qed

lemma state_at_stacked_12:
  "state_at stacked_shuffle 4 0 12 =
     Some \<lparr>positions = [3, 3, 3, 3],
           deck = replicate 4 ''Orange'' @ replicate 4 ''Yellow'' @ replicate 4 ''Green'',
           deck_index = 12, turn = 12, shuffles = 1\<rparr>"
  by (simp add: eval_defs stacked_shuffle_def eval_nat_numeral)

section \<open>Games on a permuted deck\<close>

text \<open>
  Red has index 0, so a Red card always wraps, and Violet has index 5, so a Violet card
  always reaches the last space: either card wins at once. A deck that is a permutation of
  \<^verbatim>\<open>COLORS * 2\<close> holds eight other cards, so a game on such decks ends in at most nine
  turns and never replenishes its deck.
\<close>

lemma list_index_COLORS_middle:
  "list_index COLORS c = Inr i \<Longrightarrow> 1 \<le> i \<Longrightarrow> i \<le> 4 \<Longrightarrow>
     c \<in> {''Orange'', ''Yellow'', ''Green'', ''Blue''}"
  by (auto simp: COLORS_def split: if_splits)

lemma prefix_filter_length:
  assumes "\<forall>i<n. P (xs ! i)" and "n \<le> length xs"
  shows "n \<le> length (filter P xs)"
proof -
  from assms have "\<forall>x \<in> set (take n xs). P x"
    by (auto simp: in_set_conv_nth)
  then have "filter P (take n xs) = take n xs"
    by simp
  moreover have "filter P xs = filter P (take n xs) @ filter P (drop n xs)"
    by (simp flip: filter_append)
  ultimately have "length (filter P xs) = length (take n xs) + length (filter P (drop n xs))"
    by simp
  with assms(2) show ?thesis
    by simp
qed

lemma middle_cards_of_deck:
  assumes "valid_shuffle shuf"
  shows "length (filter (\<lambda>c. c \<in> {''Orange'', ''Yellow'', ''Green'', ''Blue''})
                 (fst (create_deck shuf k))) = 8"
proof -
  let ?P = "\<lambda>c. c \<in> {''Orange'', ''Yellow'', ''Green'', ''Blue''}"
  let ?full = "concat (replicate 2 COLORS)"
  from assms have "mset (fst (create_deck shuf k)) = mset ?full"
    by (simp add: create_deck_def valid_shuffle_def)
  then have "mset (filter ?P (fst (create_deck shuf k))) = mset (filter ?P ?full)"
    by (simp only: mset_filter)
  then have "length (filter ?P (fst (create_deck shuf k))) = length (filter ?P ?full)"
    by (rule mset_eq_length)
  then show ?thesis
    by (simp add: COLORS_def numeral_2_eq_2)
qed

lemma state_at_first_deck:
  assumes "valid_shuffle shuf" and "state_at shuf num_players k n = Some s"
  shows "deck s = fst (create_deck shuf k) \<and> deck_index s = int n \<and> shuffles s = Suc k
       \<and> (\<forall>i<n. deck s ! i \<in> {''Orange'', ''Yellow'', ''Green'', ''Blue''})
       \<and> n \<le> 8"
  using assms(2)
proof (induction n arbitrary: s)
  case 0
  then show ?case
    by (auto simp: initial_state_def create_deck_def)
next
  case (Suc n)
  let ?P = "\<lambda>c. c \<in> {''Orange'', ''Yellow'', ''Green'', ''Blue''}"
  from assms(1) have len: "\<forall>k xs. length (shuf k xs) = length xs"
    by (simp add: valid_shuffle_length)
  from Suc.prems obtain s0 where
    s0: "state_at shuf num_players k n = Some s0"
    and step: "turn_outcome shuf num_players s0 = Continue s"
    by (rule state_at_Suc)
  from Suc.IH [OF s0] have deck0: "deck s0 = fst (create_deck shuf k)"
    and di0: "deck_index s0 = int n" and sh0: "shuffles s0 = Suc k"
    and mid0: "\<forall>i<n. deck s0 ! i \<in> {''Orange'', ''Yellow'', ''Green'', ''Blue''}"
    and n8: "n \<le> 8"
    by blast+
  from state_at_cards [OF len s0] have len0: "length (deck s0) = 12"
    by simp
  with di0 n8 have same: "replenish shuf s0 = s0"
    by (simp add: replenish_def)
  from step obtain j q drawn where
    j: "j < length (positions s0)" and pq: "positions s0 ! j < q" and q4: "q \<le> 4"
    and drawn: "getitem (deck (replenish shuf s0)) (deck_index (replenish shuf s0)) = Inr drawn"
    and s: "s = (replenish shuf s0)
           \<lparr>deck_index := deck_index (replenish shuf s0) + 1,
            positions := (positions s0)[j := q], turn := turn s0 + 1\<rparr>"
    and ci: "list_index COLORS drawn = Inr q"
    by (rule turn_outcome_Continue)
  from state_at_positions [OF s0] j have "0 \<le> positions s0 ! j"
    by simp
  with pq have "1 \<le> q"
    by simp
  from list_index_COLORS_middle [OF ci this q4] have mid: "?P drawn" .
  from drawn di0 len0 n8 have "drawn = deck s0 ! n"
    by (simp add: same getitem_def)
  with mid mid0 have all: "\<forall>i<Suc n. ?P (deck s0 ! i)"
    by (simp add: less_Suc_eq)
  from len0 n8 have "Suc n \<le> length (deck s0)"
    by simp
  from prefix_filter_length [OF all this] middle_cards_of_deck [OF assms(1), of k]
  have "Suc n \<le> 8"
    by (simp add: deck0)
  moreover from arg_cong [OF s, of deck] arg_cong [OF s, of deck_index]
    arg_cong [OF s, of shuffles]
  have "deck s = deck s0" and "deck_index s = int (Suc n)" and "shuffles s = Suc k"
    by (simp_all add: same di0 sh0)
  ultimately show ?case
    using all deck0 by simp
qed

lemma game_loop_state_at:
  assumes "state_at shuf num_players k n = Some s"
    and "game_loop shuf num_players s = Inr (r, k')"
  shows "\<exists>m s'. state_at shuf num_players k m = Some s'
            \<and> turn_outcome shuf num_players s' = Return r k'"
  using assms
proof (induction shuf num_players s arbitrary: n rule: game_loop.induct)
  case (1 shuf num_players s)
  show ?case
  proof (cases "turn_outcome shuf num_players s")
    case (Raise e)
    with "1.prems"(2) show ?thesis
      by (simp add: game_loop.simps)
  next
    case (Return r0 k0)
    with "1.prems"(2) have "turn_outcome shuf num_players s = Return r k'"
      by (simp add: game_loop.simps)
    with "1.prems"(1) show ?thesis
      by blast
  next
    case (Continue s')
    with "1.prems"(1) have "state_at shuf num_players k (Suc n) = Some s'"
      by simp
    moreover from Continue "1.prems"(2) have "game_loop shuf num_players s' = Inr (r, k')"
      by (simp add: game_loop.simps)
    ultimately show ?thesis
      by (rule "1.IH" [OF Continue])
  qed
qed

lemma permuted_deck_game_is_short:
  assumes "valid_shuffle shuf" and "play_game shuf num_players k = Inr (r, k')"
  shows "turns r \<le> 9 \<and> k' = Suc k"
proof -
  have "state_at shuf num_players k 0 = Some (initial_state shuf num_players k)"
    by simp
  from game_loop_state_at [OF this] assms(2) obtain m s where
    at: "state_at shuf num_players k m = Some s"
    and won: "turn_outcome shuf num_players s = Return r k'"
    by (auto simp: play_game_def)
  from assms(1) have len: "\<forall>k xs. length (shuf k xs) = length xs"
    by (simp add: valid_shuffle_length)
  from state_at_first_deck [OF assms(1) at]
  have di: "deck_index s = int m" and sh: "shuffles s = Suc k" and m8: "m \<le> 8"
    by simp_all
  from state_at_cards [OF len at] have "length (deck s) = 12"
    by simp
  with di m8 have same: "replenish shuf s = s"
    by (simp add: replenish_def)
  from state_at_positions [OF at] have "turn s = int m"
    by simp
  with turn_outcome_Return [OF won] m8 sh show ?thesis
    by (simp add: same)
qed

section \<open>Drawing a card\<close>

lemma list_index_error: "list_index xs x = Inl e \<Longrightarrow> e = ValueError"
  by (induction xs arbitrary: e) (auto split: if_splits sum.splits)

lemma take_turn_draws:
  assumes "\<forall>k xs. length (shuf k xs) = length xs" and "1 \<le> num_players"
    and "length (positions s) = nat num_players" and "0 \<le> deck_index s" and "0 \<le> turn s"
  shows "take_turn shuf num_players s = Inl ValueError
       \<or> (\<exists>cur s'. take_turn shuf num_players s = Inr (cur, s'))"
proof -
  let ?cur = "turn s mod num_players"
  let ?s1 = "replenish shuf s"
  let ?drawn = "deck ?s1 ! nat (deck_index ?s1)"
  from assms(2) have cur: "0 \<le> ?cur" "?cur < num_players"
    by simp_all
  with assms(3) have curlen: "?cur < int (length (positions s))"
    by simp
  from replenish_cursor [OF assms(1,4)]
  have "0 \<le> deck_index ?s1" "deck_index ?s1 < int (length (deck ?s1))"
    by simp_all
  then have drawn: "getitem (deck ?s1) (deck_index ?s1) = Inr ?drawn"
    by (rule getitem_nonneg)
  have p: "getitem (positions s) ?cur = Inr (positions s ! nat ?cur)"
    using cur(1) curlen by (rule getitem_nonneg)
  have upd: "setitem (positions s) ?cur v = Inr ((positions s)[nat ?cur := v])" for v
    using cur(1) curlen by (rule setitem_nonneg)
  show ?thesis
  proof (cases "list_index COLORS ?drawn")
    case (Inl e)
    with list_index_error [OF Inl] assms(2)
    have "take_turn shuf num_players s = Inl ValueError"
      unfolding take_turn_def Let_def by (simp add: py_mod_def drawn)
    then show ?thesis ..
  next
    case (Inr ci)
    with assms(2) have "\<exists>cur s'. take_turn shuf num_players s = Inr (cur, s')"
      unfolding take_turn_def Let_def
      by (simp add: py_mod_def drawn positions_replenish p upd)
    then show ?thesis ..
  qed
qed

lemma take_turn_deck:
  assumes "take_turn shuf num_players s = Inr (cur, s')"
  shows "deck s' = deck (replenish shuf s)"
    and "deck_index s' = deck_index (replenish shuf s) + 1"
proof -
  from assms have
    s': "s' = (replenish shuf s)
           \<lparr>deck_index := deck_index (replenish shuf s) + 1, positions := positions s'\<rparr>"
    by (rule take_turn_Inr)
  from arg_cong [OF s', of deck] show "deck s' = deck (replenish shuf s)"
    by simp
  from arg_cong [OF s', of deck_index]
  show "deck_index s' = deck_index (replenish shuf s) + 1"
    by simp
qed

lemma take_turn_move:
  assumes "take_turn shuf num_players s = Inr (cur, s')"
    and "0 \<le> deck_index (replenish shuf s)"
  shows "\<exists>C p. list_index COLORS (deck (replenish shuf s) ! nat (deck_index (replenish shuf s)))
                 = Inr C
           \<and> getitem (positions s) cur = Inr p
           \<and> getitem (positions s') cur = Inr (if C > p then C else C + BOARD_SIZE)"
proof -
  from assms(1) obtain drawn ci p where
    d: "getitem (deck (replenish shuf s)) (deck_index (replenish shuf s)) = Inr drawn"
    and ci: "list_index COLORS drawn = Inr ci"
    and p: "getitem (positions s) cur = Inr p"
    and upd: "setitem (positions s) cur (if ci > p then ci else ci + BOARD_SIZE)
           = Inr (positions s')"
    by (rule take_turn_Inr)
  from d assms(2) have "drawn = deck (replenish shuf s) ! nat (deck_index (replenish shuf s))"
    by (auto simp: getitem_def Let_def split: if_splits)
  with ci p getitem_setitem [OF upd] show ?thesis
    by blast
qed

text \<open>
  Claim C8. In every turn of a game with at least one player the card is drawn with the
  cursor in range: the turn does not raise \<^verbatim>\<open>IndexError\<close>, and on a permuted deck it
  raises nothing. A turn that finds the cursor at the length of the deck draws from the
  next deck of \<^verbatim>\<open>create_deck\<close>: after the turn the deck is that deck, of 12 cards, the
  cursor is 1, and the player has moved by the colour of its first card. A turn that finds
  the cursor inside the deck keeps the deck and moves by the card at the cursor. A game of
  more than 12 turns has called \<^verbatim>\<open>create_deck\<close> at least twice, once at the start and at
  least once to replenish. The shuffle is only assumed to keep the length of the list.
\<close>

theorem card_drawn_in_range:
  assumes "\<forall>k xs. length (shuf k xs) = length xs"
  shows "(1 \<le> num_players \<and> state_at shuf num_players k n = Some s \<longrightarrow>
            length (deck s) = 12 \<and> 0 \<le> deck_index s \<and> deck_index s \<le> 12
          \<and> take_turn shuf num_players s \<noteq> Inl IndexError
          \<and> (valid_shuffle shuf \<longrightarrow>
                (\<exists>cur s'. take_turn shuf num_players s = Inr (cur, s'))))
       \<and> (take_turn shuf num_players t = Inr (current_player, t')
            \<and> int (length (deck t)) \<le> deck_index t \<longrightarrow>
            deck t' = fst (create_deck shuf (shuffles t)) \<and> length (deck t') = 12
          \<and> deck_index t' = 0 + 1 \<and> shuffles t' = Suc (shuffles t)
          \<and> (\<exists>C p. list_index COLORS (deck t' ! 0) = Inr C
                \<and> getitem (positions t) current_player = Inr p
                \<and> getitem (positions t') current_player
                    = Inr (if C > p then C else C + BOARD_SIZE)))
       \<and> (take_turn shuf num_players t = Inr (current_player, t')
            \<and> 0 \<le> deck_index t \<and> deck_index t < int (length (deck t)) \<longrightarrow>
            deck t' = deck t \<and> deck_index t' = deck_index t + 1 \<and> shuffles t' = shuffles t
          \<and> (\<exists>C p. list_index COLORS (deck t ! nat (deck_index t)) = Inr C
                \<and> getitem (positions t) current_player = Inr p
                \<and> getitem (positions t') current_player
                    = Inr (if C > p then C else C + BOARD_SIZE)))
       \<and> (play_game shuf num_players k = Inr (r, k') \<and> 12 < turns r \<longrightarrow> k + 2 \<le> k')"
proof (intro conjI)
  show "1 \<le> num_players \<and> state_at shuf num_players k n = Some s \<longrightarrow>
            length (deck s) = 12 \<and> 0 \<le> deck_index s \<and> deck_index s \<le> 12
          \<and> take_turn shuf num_players s \<noteq> Inl IndexError
          \<and> (valid_shuffle shuf \<longrightarrow>
                (\<exists>cur s'. take_turn shuf num_players s = Inr (cur, s')))"
  proof (intro impI, elim conjE)
    assume np: "1 \<le> num_players" and at: "state_at shuf num_players k n = Some s"
    from state_at_cards [OF assms at] have cards: "length (deck s) = 12" "0 \<le> deck_index s"
        "deck_index s \<le> 12"
      by simp_all
    from state_at_positions [OF at] have pos: "length (positions s) = nat num_players"
        "0 \<le> turn s"
      by simp_all
    from take_turn_draws [OF assms np pos(1) cards(2) pos(2)]
    have no_index_error: "take_turn shuf num_players s \<noteq> Inl IndexError"
      by auto
    have "\<exists>cur s'. take_turn shuf num_players s = Inr (cur, s')" if valid: "valid_shuffle shuf"
    proof -
      from state_at_first_deck [OF valid at] have "deck s = fst (create_deck shuf k)"
        by simp
      with valid have "set (deck s) \<subseteq> set COLORS"
        by (simp add: create_deck_def valid_shuffle_set numeral_2_eq_2)
      from take_turn_total [OF valid np pos(1) cards(2) this pos(2)] show ?thesis
        by blast
    qed
    with cards no_index_error
    show "length (deck s) = 12 \<and> 0 \<le> deck_index s \<and> deck_index s \<le> 12
          \<and> take_turn shuf num_players s \<noteq> Inl IndexError
          \<and> (valid_shuffle shuf \<longrightarrow>
                (\<exists>cur s'. take_turn shuf num_players s = Inr (cur, s')))"
      by blast
  qed
next
  show "take_turn shuf num_players t = Inr (current_player, t')
            \<and> int (length (deck t)) \<le> deck_index t \<longrightarrow>
            deck t' = fst (create_deck shuf (shuffles t)) \<and> length (deck t') = 12
          \<and> deck_index t' = 0 + 1 \<and> shuffles t' = Suc (shuffles t)
          \<and> (\<exists>C p. list_index COLORS (deck t' ! 0) = Inr C
                \<and> getitem (positions t) current_player = Inr p
                \<and> getitem (positions t') current_player
                    = Inr (if C > p then C else C + BOARD_SIZE))"
  proof (intro impI, elim conjE)
    assume tt: "take_turn shuf num_players t = Inr (current_player, t')"
      and exhausted: "int (length (deck t)) \<le> deck_index t"
    from exhausted have fresh: "replenish shuf t
        = t\<lparr>deck := fst (create_deck shuf (shuffles t)), deck_index := 0,
            shuffles := Suc (shuffles t)\<rparr>"
      by (simp add: replenish_def create_deck_def)
    from take_turn_deck [OF tt] take_turn_shuffles [OF tt]
    have after: "deck t' = fst (create_deck shuf (shuffles t))" "deck_index t' = 0 + 1"
        "shuffles t' = Suc (shuffles t)"
      by (simp_all add: fresh)
    from assms have twelve: "length (fst (create_deck shuf (shuffles t))) = 12"
      by (simp add: create_deck_def COLORS_def numeral_2_eq_2)
    from take_turn_move [OF tt] have "\<exists>C p. list_index COLORS (deck t' ! 0) = Inr C
                \<and> getitem (positions t) current_player = Inr p
                \<and> getitem (positions t') current_player
                    = Inr (if C > p then C else C + BOARD_SIZE)"
      by (simp add: fresh after(1))
    with after twelve
    show "deck t' = fst (create_deck shuf (shuffles t)) \<and> length (deck t') = 12
          \<and> deck_index t' = 0 + 1 \<and> shuffles t' = Suc (shuffles t)
          \<and> (\<exists>C p. list_index COLORS (deck t' ! 0) = Inr C
                \<and> getitem (positions t) current_player = Inr p
                \<and> getitem (positions t') current_player
                    = Inr (if C > p then C else C + BOARD_SIZE))"
      by simp
  qed
next
  show "take_turn shuf num_players t = Inr (current_player, t')
            \<and> 0 \<le> deck_index t \<and> deck_index t < int (length (deck t)) \<longrightarrow>
            deck t' = deck t \<and> deck_index t' = deck_index t + 1 \<and> shuffles t' = shuffles t
          \<and> (\<exists>C p. list_index COLORS (deck t ! nat (deck_index t)) = Inr C
                \<and> getitem (positions t) current_player = Inr p
                \<and> getitem (positions t') current_player
                    = Inr (if C > p then C else C + BOARD_SIZE))"
  proof (intro impI, elim conjE)
    assume tt: "take_turn shuf num_players t = Inr (current_player, t')"
      and lo: "0 \<le> deck_index t" and hi: "deck_index t < int (length (deck t))"
    from hi have same: "replenish shuf t = t"
      by (simp add: replenish_def)
    from take_turn_deck [OF tt] take_turn_shuffles [OF tt]
    have after: "deck t' = deck t" "deck_index t' = deck_index t + 1" "shuffles t' = shuffles t"
      by (simp_all add: same)
    from take_turn_move [OF tt] lo
    have "\<exists>C p. list_index COLORS (deck t ! nat (deck_index t)) = Inr C
                \<and> getitem (positions t) current_player = Inr p
                \<and> getitem (positions t') current_player
                    = Inr (if C > p then C else C + BOARD_SIZE)"
      by (simp add: same)
    with after
    show "deck t' = deck t \<and> deck_index t' = deck_index t + 1 \<and> shuffles t' = shuffles t
          \<and> (\<exists>C p. list_index COLORS (deck t ! nat (deck_index t)) = Inr C
                \<and> getitem (positions t) current_player = Inr p
                \<and> getitem (positions t') current_player
                    = Inr (if C > p then C else C + BOARD_SIZE))"
      by simp
  qed
next
  show "play_game shuf num_players k = Inr (r, k') \<and> 12 < turns r \<longrightarrow> k + 2 \<le> k'"
  proof
    assume "play_game shuf num_players k = Inr (r, k') \<and> 12 < turns r"
    then have game: "game_loop shuf num_players (initial_state shuf num_players k) = Inr (r, k')"
      and long: "12 < turns r"
      by (simp_all add: play_game_def)
    have "state_at shuf num_players k 0 = Some (initial_state shuf num_players k)"
      by simp
    from state_at_cards [OF assms this]
    have "length (deck (initial_state shuf num_players k)) = 12"
      and "0 \<le> deck_index (initial_state shuf num_players k)"
      and "deck_index (initial_state shuf num_players k) \<le> 12"
      and "turn (initial_state shuf num_players k) + 12 + 12 * int k
           = 12 * int (shuffles (initial_state shuf num_players k))
             + deck_index (initial_state shuf num_players k)"
      by simp_all
    from game_loop_shuffles [OF assms this game] long show "k + 2 \<le> k'"
      by simp
  qed
qed


lemma take_turn_stacked_12:
  "take_turn stacked_shuffle 4
     \<lparr>positions = [3, 3, 3, 3],
      deck = replicate 4 ''Orange'' @ replicate 4 ''Yellow'' @ replicate 4 ''Green'',
      deck_index = 12, turn = 12, shuffles = 1\<rparr>
   = Inr (0, \<lparr>positions = [4, 3, 3, 3],
             deck = replicate 4 ''Blue'' @ replicate 4 ''Red'' @ replicate 4 ''Violet'',
             deck_index = 1, turn = 12, shuffles = 2\<rparr>)"
  by (simp add: eval_defs stacked_shuffle_def eval_nat_numeral)

theorem card_drawn_in_range_witness:
  "(\<forall>k xs. length (stacked_shuffle k xs) = length xs) \<and> (1::int) \<le> 4
   \<and> state_at stacked_shuffle 4 0 12 =
     Some \<lparr>positions = [3, 3, 3, 3],
           deck = replicate 4 ''Orange'' @ replicate 4 ''Yellow'' @ replicate 4 ''Green'',
           deck_index = 12, turn = 12, shuffles = 1\<rparr>
   \<and> take_turn stacked_shuffle 4
        \<lparr>positions = [3, 3, 3, 3],
         deck = replicate 4 ''Orange'' @ replicate 4 ''Yellow'' @ replicate 4 ''Green'',
         deck_index = 12, turn = 12, shuffles = 1\<rparr>
     = Inr (0, \<lparr>positions = [4, 3, 3, 3],
               deck = replicate 4 ''Blue'' @ replicate 4 ''Red'' @ replicate 4 ''Violet'',
               deck_index = 1, turn = 12, shuffles = 2\<rparr>)
   \<and> replicate 4 ''Blue'' @ replicate 4 ''Red'' @ replicate 4 ''Violet''
     = fst (create_deck stacked_shuffle 1)
   \<and> play_game stacked_shuffle 4 0 = Inr (\<lparr>winner = 0, turns = 17\<rparr>, 2)
   \<and> (0::nat) + 2 \<le> 2
   \<and> valid_shuffle rigged_shuffle \<and> (1::int) \<le> 2
   \<and> state_at rigged_shuffle 2 0 2 =
     Some \<lparr>positions = [3, 2], deck = rigged_deck, deck_index = 2, turn = 2, shuffles = 1\<rparr>
   \<and> take_turn rigged_shuffle 2
       \<lparr>positions = [3, 2], deck = rigged_deck, deck_index = 2, turn = 2, shuffles = 1\<rparr>
     = Inr (0, \<lparr>positions = [6, 2], deck = rigged_deck, deck_index = 3, turn = 2,
                shuffles = 1\<rparr>)
   \<and> list_index COLORS (rigged_deck ! nat 2) = Inr 0"
proof -
  let ?s = "\<lparr>positions = [3, 3, 3, 3],
           deck = replicate 4 ''Orange'' @ replicate 4 ''Yellow'' @ replicate 4 ''Green'',
           deck_index = 12, turn = 12, shuffles = 1\<rparr>"
  let ?s' = "\<lparr>positions = [4, 3, 3, 3],
           deck = replicate 4 ''Blue'' @ replicate 4 ''Red'' @ replicate 4 ''Violet'',
           deck_index = 1, turn = 12, shuffles = 2\<rparr>"
  let ?t = "\<lparr>positions = [3, 2], deck = rigged_deck, deck_index = 2, turn = 2,
            shuffles = 1\<rparr>"
  let ?t' = "\<lparr>positions = [6, 2], deck = rigged_deck, deck_index = 3, turn = 2,
            shuffles = 1\<rparr>"
  have four: "(1::int) \<le> 4" and two: "(1::int) \<le> 2"
    by simp_all
  note stacked = card_drawn_in_range
    [OF stacked_length, where num_players = 4 and k = 0 and n = 12 and s = ?s and t = ?s
       and current_player = 0 and t' = ?s' and r = "\<lparr>winner = 0, turns = 17\<rparr>" and k' = 2]
  from stacked four state_at_stacked_12
  have in_range: "take_turn stacked_shuffle 4 ?s \<noteq> Inl IndexError"
    by blast
  have exhausted: "int (length (deck ?s)) \<le> deck_index ?s"
    by simp
  from stacked take_turn_stacked_12 exhausted
  have "deck ?s' = fst (create_deck stacked_shuffle (shuffles ?s))"
    by blast
  then have fresh: "replicate 4 ''Blue'' @ replicate 4 ''Red'' @ replicate 4 ''Violet''
     = fst (create_deck stacked_shuffle 1)"
    by simp
  have "12 < turns \<lparr>winner = 0, turns = 17\<rparr>"
    by simp
  with stacked play_game_stacked have twice: "(0::nat) + 2 \<le> 2"
    by blast
  have keeps: "\<forall>k xs. length (rigged_shuffle k xs) = length xs"
    using valid_rigged_shuffle by (simp add: valid_shuffle_length)
  note rigged = card_drawn_in_range
    [OF keeps, where num_players = 2 and k = 0 and n = 2 and s = ?t and t = ?t
       and current_player = 0 and t' = ?t' and r = "\<lparr>winner = 0, turns = 3\<rparr>" and k' = 1]
  from rigged two state_at_rigged_2 valid_rigged_shuffle
  have "\<exists>cur s'. take_turn rigged_shuffle 2 ?t = Inr (cur, s')"
    by blast
  have "0 \<le> deck_index ?t \<and> deck_index ?t < int (length (deck ?t))"
    by (simp add: rigged_deck_def)
  with rigged take_turn_rigged_2
  have "\<exists>C p. list_index COLORS (deck ?t ! nat (deck_index ?t)) = Inr C
                \<and> getitem (positions ?t) 0 = Inr p
                \<and> getitem (positions ?t') 0 = Inr (if C > p then C else C + BOARD_SIZE)"
    by blast
  have red: "list_index COLORS (rigged_deck ! nat 2) = Inr 0"
    by (simp add: rigged_deck_def COLORS_def)
  from stacked_length four state_at_stacked_12 take_turn_stacked_12 fresh play_game_stacked
    twice valid_rigged_shuffle two state_at_rigged_2 take_turn_rigged_2 red
  show ?thesis
    by (intro conjI)
qed

section \<open>Statistics of a batch\<close>

lemma mset_rotate1: "mset (rotate1 xs) = mset xs"
  by (cases xs) simp_all

lemma mset_rotate: "mset (rotate n xs) = mset xs"
  by (induction n) (simp_all add: mset_rotate1)

lemma valid_cut_shuffle: "valid_shuffle cut_shuffle"
  by (simp add: valid_shuffle_def cut_shuffle_def mset_rotate)

lemma play_game_returns:
  assumes "valid_shuffle shuf" and "1 \<le> num_players"
  shows "\<exists>r k'. play_game shuf num_players k = Inr (r, k') \<and> 1 \<le> turns r \<and> turns r \<le> 9"
proof -
  let ?s = "initial_state shuf num_players k"
  from initial_state_invariant [OF assms(1), of num_players k]
  have "length (positions ?s) = nat num_players" and "0 \<le> deck_index ?s"
    and "set (deck ?s) \<subseteq> set COLORS" and "0 \<le> turn ?s"
    by simp_all
  from game_loop_returns [OF assms this] obtain r k' where
    game: "play_game shuf num_players k = Inr (r, k')" and "turn ?s < turns r"
    by (auto simp: play_game_def)
  with \<open>0 \<le> turn ?s\<close> permuted_deck_game_is_short [OF assms(1) game] show ?thesis
    by auto
qed

lemma sum_increment:
  "sum_list (map snd (increment key w)) = sum_list (map snd w) + 1"
  by (induction w) auto

lemma map_fst_increment:
  "map fst (increment key w)
     = (if key \<in> fst ` set w then map fst w else map fst w @ [key])"
  by (induction w) force+

lemma keys_increment:
  "fst ` set (increment key w) = insert key (fst ` set w)"
  using arg_cong [OF map_fst_increment [of key w], of set] by (auto split: if_splits)

lemma distinct_increment:
  "distinct (map fst w) \<Longrightarrow> distinct (map fst (increment key w))"
  by (simp add: map_fst_increment)

lemma sum_fold_increment:
  "sum_list (map snd (fold increment ks w)) = sum_list (map snd w) + int (length ks)"
  by (induction ks arbitrary: w) (simp_all add: sum_increment)

lemma keys_fold_increment:
  "fst ` set (fold increment ks w) = set ks \<union> fst ` set w"
  by (induction ks arbitrary: w) (simp_all add: keys_increment)

lemma distinct_fold_increment:
  "distinct (map fst w) \<Longrightarrow> distinct (map fst (fold increment ks w))"
  by (induction ks arbitrary: w) (simp_all add: distinct_increment)

lemma simulate_game_results:
  assumes "valid_shuffle shuf" and "1 \<le> num_players"
  shows "\<exists>rs acc'. game_results shuf num_players n (rng acc) = Inr rs \<and> length rs = n
           \<and> (\<forall>r \<in> set rs. 1 \<le> turns r \<and> turns r \<le> 9)
           \<and> simulate shuf num_players n acc = Inr acc'
           \<and> wins acc' = fold increment (map winner rs) (wins acc)
           \<and> all_turns acc' = all_turns acc @ map turns rs"
proof (induction n arbitrary: acc)
  case 0
  show ?case by simp
next
  case (Suc n)
  from play_game_returns [OF assms] obtain r k1 where
    game: "play_game shuf num_players (rng acc) = Inr (r, k1)"
    and r: "1 \<le> turns r" "turns r \<le> 9"
    by blast
  let ?acc = "\<lparr>wins = increment (winner r) (wins acc),
             all_turns = all_turns acc @ [turns r], rng = k1\<rparr>"
  from Suc.IH [of ?acc] obtain rs acc' where
    "game_results shuf num_players n k1 = Inr rs" and "length rs = n"
    and "\<forall>r \<in> set rs. 1 \<le> turns r \<and> turns r \<le> 9"
    and "simulate shuf num_players n ?acc = Inr acc'"
    and "wins acc' = fold increment (map winner rs) (wins ?acc)"
    and "all_turns acc' = all_turns ?acc @ map turns rs"
    by auto
  with game r show ?case
    by simp
qed

lemma sum_list_lower:
  fixes xs :: "int list"
  shows "\<forall>x \<in> set xs. a \<le> x \<Longrightarrow> a * int (length xs) \<le> sum_list xs"
  by (induction xs) (auto simp: algebra_simps)

lemma sum_list_upper:
  fixes xs :: "int list"
  shows "\<forall>x \<in> set xs. x \<le> b \<Longrightarrow> sum_list xs \<le> b * int (length xs)"
  by (induction xs) (auto simp: algebra_simps)

lemma py_min_Min: "xs \<noteq> [] \<Longrightarrow> py_min xs = Inr (Min (set xs))"
  by (cases xs) (simp_all add: py_min_def Min.set_eq_fold [symmetric] del: set_simps)

lemma py_max_Max: "xs \<noteq> [] \<Longrightarrow> py_max xs = Inr (Max (set xs))"
  by (cases xs) (simp_all add: py_max_def Max.set_eq_fold [symmetric] del: set_simps)

lemma mean_between:
  fixes xs :: "int list"
  assumes "xs \<noteq> []"
  shows "real_of_int (Min (set xs)) \<le> real_of_int (sum_list xs) / real (length xs)"
    and "real_of_int (sum_list xs) / real (length xs) \<le> real_of_int (Max (set xs))"
proof -
  from assms have pos: "0 < real (length xs)"
    by simp
  have "Min (set xs) * int (length xs) \<le> sum_list xs"
    by (rule sum_list_lower) simp
  then have "real_of_int (Min (set xs) * int (length xs)) \<le> real_of_int (sum_list xs)"
    by (simp only: of_int_le_iff)
  then show "real_of_int (Min (set xs)) \<le> real_of_int (sum_list xs) / real (length xs)"
    using pos by (simp add: pos_le_divide_eq)
  have "sum_list xs \<le> Max (set xs) * int (length xs)"
    by (rule sum_list_upper) simp
  then have "real_of_int (sum_list xs) \<le> real_of_int (Max (set xs) * int (length xs))"
    by (simp only: of_int_le_iff)
  then show "real_of_int (sum_list xs) / real (length xs) \<le> real_of_int (Max (set xs))"
    using pos by (simp add: pos_divide_le_eq)
qed

text \<open>The double nearest to a quotient of positive integers.\<close>

lemma bit_length_bounds:
  "0 < n \<Longrightarrow> 2 ^ bit_length n \<le> 2 * n \<and> n < 2 ^ bit_length n"
proof (induction n rule: bit_length.induct)
  case (1 n)
  show ?case
  proof (cases "n div 2 = 0")
    case True
    with "1.prems" have "n = 1"
      by (simp add: div_eq_0_iff) 
    then show ?thesis
      by (simp add: bit_length.simps [of "Suc 0"] bit_length.simps [of 0])
  next
    case False
    with "1.IH" "1.prems" have IH: "2 ^ bit_length (n div 2) \<le> 2 * (n div 2)"
        "n div 2 < 2 ^ bit_length (n div 2)"
      by simp_all
    from "1.prems" have bl: "bit_length n = Suc (bit_length (n div 2))"
      by (simp add: bit_length.simps [of n])
    from IH show ?thesis
      unfolding bl by (simp; linarith)
  qed
qed

lemma round_half_even_ge:
  assumes "real_of_int k \<le> x"
  shows "k \<le> round_half_even x"
proof -
  from assms have "k \<le> \<lfloor>x\<rfloor>"
    by (simp add: le_floor_iff)
  moreover have "\<lfloor>x\<rfloor> \<le> round_half_even x"
    by (simp add: round_half_even_def Let_def)
  ultimately show ?thesis
    by simp
qed

lemma round_half_even_le: "x \<le> real_of_int k \<Longrightarrow> round_half_even x \<le> k"
  unfolding round_half_even_def Let_def
  by (auto simp: floor_le_iff)

lemma powi_diff_nat:
  "(2::real) powi (int m - int n) = 2 ^ m / 2 ^ n"
  by (simp add: power_int_diff)

lemma frac_bounds:
  fixes A B P Q :: real
  assumes "0 < A" "0 < B" "P \<le> 2 * A" "A < P" "Q \<le> 2 * B" "B < Q"
  shows "A / B < 2 * (P / Q)" and "P / Q / 2 < A / B"
proof -
  from assms have pos: "0 < P" "0 < Q"
    by simp_all
  have "A * Q < P * (2 * B)"
    using assms pos by (intro mult_less_le_imp_less) simp_all
  with assms pos show "A / B < 2 * (P / Q)"
    by (simp add: field_simps)
  have "P * B < 2 * A * Q"
    using assms pos by (intro mult_le_less_imp_less) simp_all
  with assms pos show "P / Q / 2 < A / B"
    by (simp add: field_simps)
qed

lemma binade_bounds:
  assumes "0 < a" and "0 < b"
  shows "2 powi (binade a b) \<le> real_of_int a / real_of_int b"
    and "real_of_int a / real_of_int b < 2 powi (binade a b + 1)"
proof -
  let ?la = "bit_length (nat a)" and ?lb = "bit_length (nat b)"
  let ?q = "real_of_int a / real_of_int b"
  let ?d = "int ?la - int ?lb"
  from assms bit_length_bounds [of "nat a"] bit_length_bounds [of "nat b"]
  have a: "2 ^ ?la \<le> 2 * nat a" "nat a < 2 ^ ?la"
    and b: "2 ^ ?lb \<le> 2 * nat b" "nat b < 2 ^ ?lb"
    by simp_all
  from a have "real (2 ^ ?la) \<le> real (2 * nat a)" "real (nat a) < real (2 ^ ?la)"
    by (simp_all only: of_nat_le_iff of_nat_less_iff)
  with assms have ra: "2 ^ ?la \<le> 2 * real_of_int a" "real_of_int a < 2 ^ ?la"
    by simp_all
  from b have "real (2 ^ ?lb) \<le> real (2 * nat b)" "real (nat b) < real (2 ^ ?lb)"
    by (simp_all only: of_nat_le_iff of_nat_less_iff)
  with assms have rb: "2 ^ ?lb \<le> 2 * real_of_int b" "real_of_int b < 2 ^ ?lb"
    by simp_all
  from assms have pos: "0 < real_of_int a" "0 < real_of_int b"
    by simp_all
  note fb = frac_bounds [OF pos ra rb]
  have d: "(2::real) powi ?d = 2 ^ ?la / 2 ^ ?lb"
    by (rule powi_diff_nat)
  have up: "(2::real) powi (?d + 1) = 2 * (2 ^ ?la / 2 ^ ?lb)"
    by (simp add: power_int_add d del: of_nat_diff)
  have down: "(2::real) powi (?d - 1) = 2 ^ ?la / 2 ^ ?lb / 2"
    by (simp add: power_int_diff d)
  from assms have q: "\<bar>?q\<bar> = ?q"
    by simp
  show "2 powi (binade a b) \<le> ?q"
  proof (cases "2 powi ?d \<le> ?q")
    case True
    with assms q show ?thesis
      by (simp add: binade_def Let_def)
  next
    case False
    with assms q have "binade a b = ?d - 1"
      by (simp add: binade_def Let_def)
    with fb(2) down show ?thesis
      by simp
  qed
  show "?q < 2 powi (binade a b + 1)"
  proof (cases "2 powi ?d \<le> ?q")
    case True
    with assms q have "binade a b = ?d"
      by (simp add: binade_def Let_def)
    with fb(1) up show ?thesis
      by simp
  next
    case False
    with assms q have "binade a b = ?d - 1"
      by (simp add: binade_def Let_def)
    with False show ?thesis
      by simp
  qed
qed


lemma nearest_double_between:
  assumes "0 < a" and "0 < b"
    and lo: "real_of_int lo \<le> real_of_int a / real_of_int b"
    and hi: "real_of_int a / real_of_int b \<le> real_of_int hi"
    and small: "hi < 2 ^ 53"
  shows "real_of_int lo \<le> nearest_double a b" and "nearest_double a b \<le> real_of_int hi"
proof -
  let ?q = "real_of_int a / real_of_int b"
  let ?e = "max (binade a b) (- 1022)"
  from assms(1,2) have q: "0 < ?q"
    by simp
  have "binade a b < 53"
  proof (rule ccontr)
    assume "\<not> binade a b < 53"
    then have "(2::real) powi 53 \<le> 2 powi binade a b"
      by (intro power_int_increasing) simp_all
    also note binade_bounds(1) [OF assms(1,2)]
    also note hi
    finally have "(2::real) ^ 53 \<le> real_of_int hi"
      by simp
    moreover from small have "real_of_int hi < real_of_int (2 ^ 53)"
      by (simp only: of_int_less_iff)
    ultimately show False
      by simp
  qed
  then have e: "?e \<le> 52"
    by simp
  define j where "j = nat (52 - ?e)"
  from e have "?e - 52 = - int j"
    by (simp add: j_def)
  then have "(2::real) powi (?e - 52) = 2 powi (- int j)"
    by (simp only:)
  also have "\<dots> = 1 / 2 ^ j"
    by (simp add: power_int_minus inverse_eq_divide)
  finally have u: "(2::real) powi (?e - 52) = 1 / 2 ^ j" .
  from q have "sgn ?q = 1" and "\<bar>?q\<bar> = ?q"
    by (simp_all only: sgn_pos abs_of_pos)
  with assms(1) have nd: "nearest_double a b
      = real_of_int (round_half_even (?q * 2 ^ j)) / 2 ^ j"
    unfolding nearest_double_def Let_def u by simp
  from lo have "real_of_int lo * 2 ^ j \<le> ?q * 2 ^ j"
    by (intro mult_right_mono) simp_all
  then have "real_of_int (lo * 2 ^ j) \<le> ?q * 2 ^ j"
    by (simp only: of_int_mult of_int_power of_int_numeral)
  then have "lo * 2 ^ j \<le> round_half_even (?q * 2 ^ j)"
    by (rule round_half_even_ge)
  then have "real_of_int (lo * 2 ^ j) \<le> real_of_int (round_half_even (?q * 2 ^ j))"
    by (simp only: of_int_le_iff)
  then show "real_of_int lo \<le> nearest_double a b"
    by (simp add: nd field_simps)
  from hi have "?q * 2 ^ j \<le> real_of_int hi * 2 ^ j"
    by (intro mult_right_mono) simp_all
  then have "?q * 2 ^ j \<le> real_of_int (hi * 2 ^ j)"
    by (simp only: of_int_mult of_int_power of_int_numeral)
  then have "round_half_even (?q * 2 ^ j) \<le> hi * 2 ^ j"
    by (rule round_half_even_le)
  then have "real_of_int (round_half_even (?q * 2 ^ j)) \<le> real_of_int (hi * 2 ^ j)"
    by (simp only: of_int_le_iff)
  then show "nearest_double a b \<le> real_of_int hi"
    by (simp add: nd field_simps)
qed

lemma nearest_double_10_3: "nearest_double 10 3 = 7505999378950827 / 2 ^ 51"
proof -
  have bl: "bit_length 10 = 4" "bit_length 3 = 2"
    by (simp_all add: bit_length.simps)
  have "binade 10 3 = 1"
    by (simp add: binade_def bl)
  then show ?thesis
    by (simp add: nearest_double_def round_half_even_def Let_def power_int_minus)
qed


text \<open>The model on doubles known from Python: \<^verbatim>\<open>1 / 10\<close>, \<^verbatim>\<open>-1 / 3\<close>, and the two ties
  next to \<open>2 ^ 53\<close>, which go to the even significand.\<close>

lemma bit_length_examples:
  "bit_length (Suc 0) = 1" "bit_length 3 = 2" "bit_length 10 = 4"
  "bit_length 9007199254740993 = 54" "bit_length 9007199254740995 = 54"
  by (simp_all add: bit_length.simps)

lemma nearest_double_tenth: "nearest_double 1 10 = 3602879701896397 / 2 ^ 55"
proof -
  have "binade 1 10 = - 4"
    by (simp add: binade_def bit_length_examples power_int_minus Let_def)
  then show ?thesis
    by (simp add: nearest_double_def round_half_even_def Let_def power_int_minus)
qed

lemma nearest_double_negative_third: "nearest_double (- 1) 3 = - (6004799503160661 / 2 ^ 54)"
proof -
  have "binade (- 1) 3 = - 2"
    by (simp add: binade_def bit_length_examples power_int_minus Let_def)
  then show ?thesis
    by (simp add: nearest_double_def round_half_even_def Let_def power_int_minus)
qed

lemma nearest_double_ties:
  "nearest_double 9007199254740993 1 = 9007199254740992"
  "nearest_double 9007199254740995 1 = 9007199254740996"
proof -
  have "binade 9007199254740993 1 = 53" and "binade 9007199254740995 1 = 53"
    by (simp_all add: binade_def bit_length_examples Let_def)
  then show "nearest_double 9007199254740993 1 = 9007199254740992"
    and "nearest_double 9007199254740995 1 = 9007199254740996"
    by (simp_all add: nearest_double_def round_half_even_def Let_def)
qed

lemma round_half_even_error: "\<bar>real_of_int (round_half_even x) - x\<bar> \<le> 1 / 2"
  unfolding round_half_even_def Let_def by (auto; linarith)

lemma nearest_double_error:
  assumes "0 < a" and "0 < b" and one: "1 \<le> real_of_int a / real_of_int b"
  shows "\<bar>nearest_double a b - real_of_int a / real_of_int b\<bar>
         \<le> real_of_int a / real_of_int b / 2 ^ 53"
proof -
  let ?q = "real_of_int a / real_of_int b"
  let ?e = "binade a b"
  let ?u = "(2::real) powi (?e - 52)"
  from assms(1,2) have q: "0 < ?q"
    by simp
  have "0 \<le> ?e"
  proof (rule ccontr)
    assume "\<not> 0 \<le> ?e"
    then have "(2::real) powi (?e + 1) \<le> 2 powi 0"
      by (intro power_int_increasing) simp_all
    with binade_bounds(2) [OF assms(1,2)] one show False
      by simp
  qed
  then have e: "max ?e (- 1022) = ?e"
    by simp
  have upos: "0 < ?u"
    by simp
  from q have "sgn ?q = 1" and "\<bar>?q\<bar> = ?q"
    by (simp_all only: sgn_pos abs_of_pos)
  with assms(1) have nd: "nearest_double a b = real_of_int (round_half_even (?q / ?u)) * ?u"
    unfolding nearest_double_def Let_def e by simp
  have "nearest_double a b - ?q = (real_of_int (round_half_even (?q / ?u)) - ?q / ?u) * ?u"
    using upos by (simp add: nd field_simps)
  then have "\<bar>nearest_double a b - ?q\<bar>
             = \<bar>real_of_int (round_half_even (?q / ?u)) - ?q / ?u\<bar> * ?u"
    using upos by (simp add: abs_mult)
  also have "\<dots> \<le> 1 / 2 * ?u"
    using upos round_half_even_error [of "?q / ?u"] by (intro mult_right_mono) simp_all
  also have "1 / 2 * ?u = 2 powi ?e / 2 ^ 53"
    by (simp add: power_int_diff)
  also have "\<dots> \<le> ?q / 2 ^ 53"
    using binade_bounds(1) [OF assms(1,2)] by (intro divide_right_mono) simp_all
  finally show ?thesis .
qed

lemma nearest_double_integer:
  assumes "0 < n" and "n < 2 ^ 53"
  shows "nearest_double n 1 = real_of_int n"
proof -
  have one: "(0::int) < 1"
    by simp
  have "real_of_int n \<le> real_of_int n / real_of_int 1"
    and "real_of_int n / real_of_int 1 \<le> real_of_int n"
    by simp_all
  from nearest_double_between [OF assms(1) one this assms(2)] show ?thesis
    by simp
qed

lemma play_game_cut:
  "play_game cut_shuffle 2 0 = Inr (\<lparr>winner = 0, turns = 1\<rparr>, Suc 0)"
  "play_game cut_shuffle 2 (Suc 0) = Inr (\<lparr>winner = 0, turns = 5\<rparr>, Suc (Suc 0))"
  "play_game cut_shuffle 2 (Suc (Suc 0)) = Inr (\<lparr>winner = 1, turns = 4\<rparr>, 3)"
  by (simp_all add: game_loop.simps eval_defs cut_shuffle_def)

lemma game_results_cut:
  "game_results cut_shuffle 2 3 0 =
     Inr [\<lparr>winner = 0, turns = 1\<rparr>, \<lparr>winner = 0, turns = 5\<rparr>, \<lparr>winner = 1, turns = 4\<rparr>]"
  by (simp add: numeral_3_eq_3 play_game_cut)

lemma run_simulations_cut:
  "run_simulations cut_shuffle 3 2 0 =
     Inr (\<lparr>wins_per_player = [(0, 2), (1, 1)], avg_turns = 7505999378950827 / 2 ^ 51,
           min_turns = 1, max_turns = 5\<rparr>, 3)"
  by (simp add: run_simulations_def numeral_3_eq_3 play_game_cut py_truediv_def py_min_def
      py_max_def nearest_double_10_3)

text \<open>
  Claim C5, as stated, fails on the code. \<^verbatim>\<open>avg_turns\<close> is a float: the division of line
  94 returns the double nearest to the mean, which is the mean only when the mean is a
  double. Three games of 1, 5 and 4 turns have the mean \<open>10 / 3\<close>, and \<^verbatim>\<open>avg_turns\<close> is
  \<open>7505999378950827 / 2 ^ 51\<close>, which Python prints as 3.3333333333333335.
\<close>

theorem mean_is_rounded_counterexample:
  "game_results cut_shuffle 2 3 0 =
     Inr [\<lparr>winner = 0, turns = 1\<rparr>, \<lparr>winner = 0, turns = 5\<rparr>, \<lparr>winner = 1, turns = 4\<rparr>]
   \<and> run_simulations cut_shuffle 3 2 0 =
     Inr (\<lparr>wins_per_player = [(0, 2), (1, 1)], avg_turns = 7505999378950827 / 2 ^ 51,
           min_turns = 1, max_turns = 5\<rparr>, 3)
   \<and> (7505999378950827 / 2 ^ 51 :: real) \<noteq> (1 + 5 + 4) / 3"
proof -
  have "(7505999378950827 / 2 ^ 51 :: real) \<noteq> (1 + 5 + 4) / 3"
    by (simp add: field_simps)
  with game_results_cut run_simulations_cut show ?thesis
    by (intro conjI)
qed

text \<open>
  Claim C5, amended. For every batch of at least one game, with at least one player,
  \<^verbatim>\<open>run_simulations\<close> returns statistics of the games it played, \<open>rs\<close> in the order
  played: the values of \<^verbatim>\<open>wins_per_player\<close> sum to \<^verbatim>\<open>num_simulations\<close>, and its keys are
  the players who won a game, each once; \<^verbatim>\<open>avg_turns\<close> is the double nearest to the
  arithmetic mean of the numbers of turns, within the mean times \<open>2 ^ - 53\<close> of it;
  \<^verbatim>\<open>min_turns\<close> and \<^verbatim>\<open>max_turns\<close> are the least and the greatest of the numbers of
  turns, and \<^verbatim>\<open>avg_turns\<close> lies between the two.
\<close>

theorem run_simulations_aggregates:
  assumes "valid_shuffle shuf" and "1 \<le> num_simulations" and "1 \<le> num_players"
  shows "\<exists>rs st k'.
           game_results shuf num_players (nat num_simulations) k = Inr rs
         \<and> int (length rs) = num_simulations
         \<and> run_simulations shuf num_simulations num_players k = Inr (st, k')
         \<and> sum_list (map snd (wins_per_player st)) = num_simulations
         \<and> distinct (map fst (wins_per_player st))
         \<and> set (map fst (wins_per_player st)) = set (map winner rs)
         \<and> avg_turns st = nearest_double (sum_list (map turns rs)) (int (length rs))
         \<and> \<bar>avg_turns st - real_of_int (sum_list (map turns rs)) / real (length rs)\<bar>
             \<le> real_of_int (sum_list (map turns rs)) / real (length rs) / 2 ^ 53
         \<and> min_turns st = Min (set (map turns rs))
         \<and> max_turns st = Max (set (map turns rs))
         \<and> real_of_int (min_turns st) \<le> avg_turns st
         \<and> avg_turns st \<le> real_of_int (max_turns st)"
proof -
  let ?start = "\<lparr>wins = [], all_turns = [], rng = k\<rparr>"
  from simulate_game_results [OF assms(1,3), of "nat num_simulations" ?start]
  obtain rs acc where
    rs: "game_results shuf num_players (nat num_simulations) k = Inr rs"
    and len: "length rs = nat num_simulations"
    and bounds: "\<forall>r \<in> set rs. 1 \<le> turns r \<and> turns r \<le> 9"
    and sim: "simulate shuf num_players (nat num_simulations) ?start = Inr acc"
    and wins: "wins acc = fold increment (map winner rs) []"
    and all: "all_turns acc = map turns rs"
    by auto
  let ?ts = "map turns rs"
  let ?a = "sum_list ?ts" and ?b = "int (length rs)"
  let ?avg = "nearest_double ?a ?b"
  let ?st = "\<lparr>wins_per_player = wins acc, avg_turns = ?avg,
             min_turns = Min (set ?ts), max_turns = Max (set ?ts)\<rparr>"
  from len assms(2) have ne: "?ts \<noteq> []" and n: "?b = num_simulations"
    by auto
  from ne have b: "0 < ?b"
    by simp
  from ne bounds have lo: "1 \<le> Min (set ?ts)" and hi: "Max (set ?ts) \<le> 9"
    by simp_all
  from mean_between [OF ne]
  have mean: "real_of_int (Min (set ?ts)) \<le> real_of_int ?a / real_of_int ?b"
    "real_of_int ?a / real_of_int ?b \<le> real_of_int (Max (set ?ts))"
    by simp_all
  from lo have "1 \<le> real_of_int (Min (set ?ts))"
    by simp
  with mean(1) have one: "1 \<le> real_of_int ?a / real_of_int ?b"
    by simp
  have a: "0 < ?a"
  proof (rule ccontr)
    assume "\<not> 0 < ?a"
    then have "real_of_int ?a \<le> 0"
      by simp
    with b have "real_of_int ?a / real_of_int ?b \<le> 0"
      by (intro divide_nonpos_pos) simp_all
    with one show False
      by simp
  qed
  from hi have small: "Max (set ?ts) < 2 ^ 53"
    by simp
  note between = nearest_double_between [OF a b mean small]
  from between lo hi have "0 \<le> ?avg" and "?avg \<le> 9"
    by simp_all
  then have "\<not> 2 ^ 1024 \<le> \<bar>?avg\<bar>"
    by simp
  with b have run: "run_simulations shuf num_simulations num_players k = Inr (?st, rng acc)"
    using py_min_Min [OF ne] py_max_Max [OF ne]
    by (simp add: run_simulations_def sim all py_truediv_def Let_def)
  have total: "sum_list (map snd (wins acc)) = num_simulations"
    using n by (simp add: wins sum_fold_increment)
  have keys: "distinct (map fst (wins acc))" "set (map fst (wins acc)) = set (map winner rs)"
    using keys_fold_increment [of "map winner rs" "[]"]
    by (simp_all add: wins distinct_fold_increment)
  from nearest_double_error [OF a b one]
  have close: "\<bar>?avg - real_of_int ?a / real (length rs)\<bar>
               \<le> real_of_int ?a / real (length rs) / 2 ^ 53"
    by simp
  show ?thesis
    apply (rule exI [of _ rs], rule exI [of _ ?st], rule exI [of _ "rng acc"])
    using rs n run total keys between close by simp
qed

theorem run_simulations_aggregates_witness:
  "valid_shuffle cut_shuffle \<and> (1::int) \<le> 3 \<and> (1::int) \<le> 2
   \<and> game_results cut_shuffle 2 3 0 =
     Inr [\<lparr>winner = 0, turns = 1\<rparr>, \<lparr>winner = 0, turns = 5\<rparr>, \<lparr>winner = 1, turns = 4\<rparr>]
   \<and> run_simulations cut_shuffle 3 2 0 =
     Inr (\<lparr>wins_per_player = [(0, 2), (1, 1)], avg_turns = 7505999378950827 / 2 ^ 51,
           min_turns = 1, max_turns = 5\<rparr>, 3)
   \<and> nearest_double 10 3 = 7505999378950827 / 2 ^ 51
   \<and> (\<exists>rs st k'.
           game_results cut_shuffle 2 (nat 3) 0 = Inr rs
         \<and> int (length rs) = 3
         \<and> run_simulations cut_shuffle 3 2 0 = Inr (st, k')
         \<and> sum_list (map snd (wins_per_player st)) = 3
         \<and> distinct (map fst (wins_per_player st))
         \<and> set (map fst (wins_per_player st)) = set (map winner rs)
         \<and> avg_turns st = nearest_double (sum_list (map turns rs)) (int (length rs))
         \<and> \<bar>avg_turns st - real_of_int (sum_list (map turns rs)) / real (length rs)\<bar>
             \<le> real_of_int (sum_list (map turns rs)) / real (length rs) / 2 ^ 53
         \<and> min_turns st = Min (set (map turns rs))
         \<and> max_turns st = Max (set (map turns rs))
         \<and> real_of_int (min_turns st) \<le> avg_turns st
         \<and> avg_turns st \<le> real_of_int (max_turns st))"
proof -
  have three: "(1::int) \<le> 3" and two: "(1::int) \<le> 2"
    by simp_all
  from run_simulations_aggregates [OF valid_cut_shuffle three two, of 0]
    valid_cut_shuffle three two game_results_cut run_simulations_cut nearest_double_10_3
  show ?thesis by (intro conjI)
qed

section \<open>Invalid configurations\<close>

text \<open>
  Claim C9, as stated, fails on the code. \<^verbatim>\<open>run_simulations\<close> checks nothing: with no
  simulation to run it raises the \<^verbatim>\<open>ZeroDivisionError\<close> of the mean, and with no player
  or a negative number of players it raises inside the first game, a
  \<^verbatim>\<open>ZeroDivisionError\<close> at \<^verbatim>\<open>turn % num_players\<close> or an \<^verbatim>\<open>IndexError\<close> at
  \<^verbatim>\<open>positions[current_player]\<close>. The source has no configuration error to raise.
\<close>

theorem invalid_configuration_counterexample:
  "run_simulations identity_shuffle 0 2 0 = Inl ZeroDivisionError
   \<and> run_simulations identity_shuffle 1 0 0 = Inl ZeroDivisionError
   \<and> run_simulations identity_shuffle 1 (- 1) 0 = Inl IndexError"
  by (simp add: run_simulations_def game_loop.simps eval_defs py_truediv_def)

text \<open>
  Claim C9, amended. An invalid configuration never returns statistics and never loops; it
  raises the error of the first built-in operation that fails. With
  \<^verbatim>\<open>num_simulations\<close> at most 0 no game is played and the division of the mean raises
  \<^verbatim>\<open>ZeroDivisionError\<close>. With at least one simulation, \<^verbatim>\<open>num_players = 0\<close> raises
  \<^verbatim>\<open>ZeroDivisionError\<close> in the first game, and a negative \<^verbatim>\<open>num_players\<close> raises
  \<^verbatim>\<open>IndexError\<close> in the first game.
\<close>

theorem invalid_configuration:
  "(num_simulations \<le> 0 \<longrightarrow>
      simulate shuf num_players (nat num_simulations) acc = Inr acc
      \<and> run_simulations shuf num_simulations num_players k = Inl ZeroDivisionError)
   \<and> (1 \<le> num_simulations \<and> num_players = 0 \<longrightarrow>
      play_game shuf num_players k = Inl ZeroDivisionError
      \<and> run_simulations shuf num_simulations num_players k = Inl ZeroDivisionError)
   \<and> (1 \<le> num_simulations \<and> num_players < 0 \<and> valid_shuffle shuf \<longrightarrow>
      play_game shuf num_players k = Inl IndexError
      \<and> run_simulations shuf num_simulations num_players k = Inl IndexError)"
proof (intro conjI impI; (elim conjE)?)
  assume "num_simulations \<le> 0"
  then show "simulate shuf num_players (nat num_simulations) acc = Inr acc"
    and "run_simulations shuf num_simulations num_players k = Inl ZeroDivisionError"
    by (simp_all add: run_simulations_def py_truediv_def)
next
  assume ns: "1 \<le> num_simulations" and np: "num_players = 0"
  from np show zero: "play_game shuf num_players k = Inl ZeroDivisionError"
    by (simp add: play_game_def game_loop.simps turn_outcome_def take_turn_def py_mod_def)
  from ns obtain n where "nat num_simulations = Suc n"
    by (cases "nat num_simulations") auto
  with zero show "run_simulations shuf num_simulations num_players k = Inl ZeroDivisionError"
    by (simp add: run_simulations_def)
next
  assume ns: "1 \<le> num_simulations" and np: "num_players < 0" and valid: "valid_shuffle shuf"
  let ?s = "initial_state shuf num_players k"
  from valid have len: "\<forall>k xs. length (shuf k xs) = length xs"
    by (simp add: valid_shuffle_length)
  from initial_state_invariant [OF valid, of num_players k]
  have inv: "deck_index ?s = 0" "set (deck ?s) \<subseteq> set COLORS" "turn ?s = 0"
    by simp_all
  from np have empty: "positions ?s = []"
    by (simp add: initial_state_def create_deck_def)
  let ?s1 = "replenish shuf ?s"
  from replenish_cursor [OF len, of ?s] inv(1)
  have di: "0 \<le> deck_index ?s1" "deck_index ?s1 < int (length (deck ?s1))"
    by simp_all
  then have drawn: "getitem (deck ?s1) (deck_index ?s1) = Inr (deck ?s1 ! nat (deck_index ?s1))"
    by (rule getitem_nonneg)
  from di have "deck ?s1 ! nat (deck_index ?s1) \<in> set (deck ?s1)"
    by simp
  with replenish_deck_subset [OF valid inv(2)]
  have "deck ?s1 ! nat (deck_index ?s1) \<in> set COLORS"
    by blast
  then obtain ci where ci: "list_index COLORS (deck ?s1 ! nat (deck_index ?s1)) = Inr ci"
    using list_index_COLORS_mem by blast
  have "getitem (positions ?s) 0 = Inl IndexError"
    by (simp add: empty getitem_def)
  with np have "take_turn shuf num_players ?s = Inl IndexError"
    unfolding take_turn_def Let_def
    by (simp add: py_mod_def inv(3) drawn ci positions_replenish)
  then show raised: "play_game shuf num_players k = Inl IndexError"
    by (simp add: play_game_def game_loop.simps turn_outcome_def)
  from ns obtain n where "nat num_simulations = Suc n"
    by (cases "nat num_simulations") auto
  with raised show "run_simulations shuf num_simulations num_players k = Inl IndexError"
    by (simp add: run_simulations_def)
qed

theorem invalid_configuration_witness:
  "(0::int) \<le> 0
   \<and> run_simulations identity_shuffle 0 2 7 = Inl ZeroDivisionError
   \<and> (1::int) \<le> 5 \<and> play_game identity_shuffle 0 7 = Inl ZeroDivisionError
   \<and> run_simulations identity_shuffle 5 0 7 = Inl ZeroDivisionError
   \<and> (- 2 :: int) < 0 \<and> valid_shuffle identity_shuffle
   \<and> play_game identity_shuffle (- 2) 7 = Inl IndexError
   \<and> run_simulations identity_shuffle 5 (- 2) 7 = Inl IndexError"
proof -
  let ?acc = "\<lparr>wins = [], all_turns = [], rng = 7\<rparr>"
  have none: "(0::int) \<le> 0" and five: "(1::int) \<le> 5" and neg: "(- 2 :: int) < 0"
    by simp_all
  note no_games = invalid_configuration
    [where num_simulations = 0 and shuf = identity_shuffle and num_players = 2
       and acc = ?acc and k = 7]
  note no_players = invalid_configuration
    [where num_simulations = 5 and shuf = identity_shuffle and num_players = 0
       and acc = ?acc and k = 7]
  note negative = invalid_configuration
    [where num_simulations = 5 and shuf = identity_shuffle and num_players = "- 2"
       and acc = ?acc and k = 7]
  from no_games none
  have a: "run_simulations identity_shuffle 0 2 7 = Inl ZeroDivisionError"
    by blast
  from no_players five
  have b: "play_game identity_shuffle 0 7 = Inl ZeroDivisionError
      \<and> run_simulations identity_shuffle 5 0 7 = Inl ZeroDivisionError"
    by blast
  from negative five neg valid_identity_shuffle
  have c: "play_game identity_shuffle (- 2) 7 = Inl IndexError
      \<and> run_simulations identity_shuffle 5 (- 2) 7 = Inl IndexError"
    by blast
  from none a five b neg valid_identity_shuffle c show ?thesis
    by blast
qed

end
